theory Spec2Isabelle
  imports Complex_Main "HOL-Library.Multiset"
begin

section \<open>Data model of \<open>internal/entity/orderbook.go\<close>\<close>

text \<open>
  The Go code works on pointers: a \<open>*Order\<close> is shared between the Limit that holds it,
  the global \<open>OrderIndex\<close> and the \<open>Match\<close> records; a \<open>*Limit\<close> is shared between the
  side slice (\<open>ob.asks\<close>, \<open>ob.bids\<close>), the price map and the back-reference of its orders.
  The embedding therefore keeps two explicit stores, one of Order objects and one of Limit
  objects, addressed by natural numbers; pointer equality of the source is equality of
  addresses. Allocation (\<open>&Order{...}\<close>, \<open>&Limit{...}\<close>) takes the next unused address.

  \<open>float64\<close> sizes and prices are modelled as exact reals: rounding, infinities and NaN are
  outside this development. \<open>int64\<close> ids and timestamps are modelled as unbounded integers
  (the id counter is only incremented by one per order).
\<close>

type_synonym OrderPlacement = string

definition BID_ORDER :: OrderPlacement where
  "BID_ORDER = ''BID''"

definition ASK_ORDER :: OrderPlacement where
  "ASK_ORDER = ''ASK''"

type_synonym order_ref = nat
type_synonym limit_ref = nat

record Match =
  Ask :: order_ref
  Bid :: order_ref
  SizeFilled :: real
  Price :: real

record Order =
  ID :: int
  OrderPlacement :: OrderPlacement
  Size :: real
  Limit :: "limit_ref option"
  Timestamp :: int

record OrderMetadata =
  Order :: order_ref
  Market :: string

record Limit =
  Price :: real
  Orders :: "order_ref list"
  TotalVolume :: real

record OrderBook =
  Market :: string
  asks :: "limit_ref list"
  bids :: "limit_ref list"
  AskLimits :: "real \<rightharpoonup> limit_ref"
  BidLimits :: "real \<rightharpoonup> limit_ref"

text \<open>
  The program state: both stores with their allocation pointers, the order book \<open>ob\<close>,
  and the package-level variables \<open>OrderIndex\<close> and \<open>orderIdSequence\<close>.
\<close>

record state =
  order_heap :: "order_ref \<Rightarrow> Order"
  order_next :: order_ref
  limit_heap :: "limit_ref \<Rightarrow> Limit"
  limit_next :: limit_ref
  ob :: OrderBook
  OrderIndex :: "int \<rightharpoonup> OrderMetadata"
  orderIdSequence :: int

datatype error =
  NotEnoughAskVolume real real
  | NotEnoughBidVolume real real
  | InvalidOrderPlacement
  | ErrNotFound

definition upd_order :: "order_ref \<Rightarrow> (Order \<Rightarrow> Order) \<Rightarrow> state \<Rightarrow> state" where
  "upd_order r f s = s\<lparr>order_heap := (order_heap s)(r := f (order_heap s r))\<rparr>"

definition upd_limit :: "limit_ref \<Rightarrow> (Limit \<Rightarrow> Limit) \<Rightarrow> state \<Rightarrow> state" where
  "upd_limit l f s = s\<lparr>limit_heap := (limit_heap s)(l := f (limit_heap s l))\<rparr>"

definition upd_ob :: "(OrderBook \<Rightarrow> OrderBook) \<Rightarrow> state \<Rightarrow> state" where
  "upd_ob f s = s\<lparr>ob := f (ob s)\<rparr>"

section \<open>Orders and Limits\<close>

text \<open>\<open>NewOrder\<close>: the clock reading \<open>time.Now().UnixNano()\<close> is the parameter \<open>now\<close>.\<close>

definition NewOrder :: "OrderPlacement \<Rightarrow> real \<Rightarrow> int \<Rightarrow> state \<Rightarrow> order_ref \<times> state" where
  "NewOrder orderPlacement sz now s =
     (let s1 = s\<lparr>orderIdSequence := orderIdSequence s + 1\<rparr>;
          r = order_next s1
      in (r, s1\<lparr>order_heap := (order_heap s1)
                    (r := \<lparr>ID = orderIdSequence s1, OrderPlacement = orderPlacement,
                           Size = sz, Limit = None, Timestamp = now\<rparr>),
                 order_next := Suc r\<rparr>))"

definition IsFilled :: "Order \<Rightarrow> bool" where
  "IsFilled x = (Size x = 0)"

definition NewLimit :: "real \<Rightarrow> state \<Rightarrow> limit_ref \<times> state" where
  "NewLimit price s =
     (let l = limit_next s
      in (l, s\<lparr>limit_heap := (limit_heap s)
                   (l := \<lparr>Price = price, Orders = [], TotalVolume = 0\<rparr>),
                limit_next := Suc l\<rparr>))"

definition AddOrder :: "limit_ref \<Rightarrow> order_ref \<Rightarrow> state \<Rightarrow> state" where
  "AddOrder l r s =
     (let s1 = upd_order r (\<lambda>x. x\<lparr>Limit := Some l\<rparr>) s;
          s2 = upd_limit l (\<lambda>x. x\<lparr>Orders := Orders x @ [r]\<rparr>) s1
      in upd_limit l (\<lambda>x. x\<lparr>TotalVolume := TotalVolume x + Size (order_heap s2 r)\<rparr>) s2)"

text \<open>
  The search loop of \<open>DeleteOrder\<close>: at the first index holding the pointer, the last
  element is copied over it and the slice is cut by one; the loop then breaks.
\<close>

function DeleteOrder_loop :: "nat \<Rightarrow> order_ref \<Rightarrow> order_ref list \<Rightarrow> order_ref list" where
  "DeleteOrder_loop i r xs =
     (if i < length xs then
        (if xs ! i = r then butlast (xs[i := last xs])
         else DeleteOrder_loop (Suc i) r xs)
      else xs)"
  by pat_completeness auto
termination
  by (relation "measure (\<lambda>(i, r, xs). length xs - i)") auto

text \<open>
  \<open>sort.Sort(l.Orders)\<close> orders by \<open>Timestamp\<close>. Go does not promise a stable sort; the model
  uses the library's insertion sort, which agrees with every correct sort whenever the
  timestamps are pairwise different.
\<close>

definition sort_Orders :: "state \<Rightarrow> order_ref list \<Rightarrow> order_ref list" where
  "sort_Orders s xs = sort_key (\<lambda>r. Timestamp (order_heap s r)) xs"

definition DeleteOrder :: "limit_ref \<Rightarrow> order_ref \<Rightarrow> state \<Rightarrow> state" where
  "DeleteOrder l r s =
     (let s1 = upd_limit l (\<lambda>x. x\<lparr>Orders := DeleteOrder_loop 0 r (Orders x)\<rparr>) s;
          s2 = upd_order r (\<lambda>x. x\<lparr>Limit := None\<rparr>) s1;
          s3 = upd_limit l (\<lambda>x. x\<lparr>TotalVolume := TotalVolume x - Size (order_heap s2 r)\<rparr>) s2
      in upd_limit l (\<lambda>x. x\<lparr>Orders := sort_Orders s3 (Orders x)\<rparr>) s3)"

definition fillOrder :: "limit_ref \<Rightarrow> order_ref \<Rightarrow> order_ref \<Rightarrow> state \<Rightarrow> Match \<times> state" where
  "fillOrder l matchingOrder order s =
     (let (ask, bid) = (if OrderPlacement (order_heap s order) = BID_ORDER
                        then (matchingOrder, order) else (order, matchingOrder));
          sizeFilled = min (Size (order_heap s ask)) (Size (order_heap s bid));
          s1 = upd_order ask (\<lambda>x. x\<lparr>Size := Size x - sizeFilled\<rparr>) s;
          s2 = upd_order bid (\<lambda>x. x\<lparr>Size := Size x - sizeFilled\<rparr>) s1;
          s3 = upd_limit l (\<lambda>x. x\<lparr>TotalVolume := TotalVolume x - sizeFilled\<rparr>) s2
      in (\<lparr>Ask = ask, Bid = bid, SizeFilled = sizeFilled,
           Match.Price = Price (limit_heap s3 l)\<rparr>, s3))"

text \<open>
  The first loop of \<open>Fill\<close> walks the orders of the Limit as they stand at loop entry
  (the body does not change the slice). It returns the matches, the orders queued in
  \<open>ordersToDelete\<close>, and the state.
\<close>

fun Fill_walk :: "limit_ref \<Rightarrow> order_ref \<Rightarrow> order_ref list \<Rightarrow> state
    \<Rightarrow> Match list \<times> order_ref list \<times> state" where
  "Fill_walk l order [] s = ([], [], s)"
| "Fill_walk l order (matchingOrder # rest) s =
     (let (match, s1) = fillOrder l matchingOrder order s;
          ordersToDelete = (if IsFilled (order_heap s1 matchingOrder) then [matchingOrder] else [])
      in if IsFilled (order_heap s1 order) then ([match], ordersToDelete, s1)
         else (let (matches, dels, s2) = Fill_walk l order rest s1
               in (match # matches, ordersToDelete @ dels, s2)))"

definition Fill :: "limit_ref \<Rightarrow> order_ref \<Rightarrow> state \<Rightarrow> Match list \<times> state" where
  "Fill l order s =
     (let (matches, ordersToDelete, s1) = Fill_walk l order (Orders (limit_heap s l)) s
      in (matches, foldl (\<lambda>t orderToDelete. DeleteOrder l orderToDelete t) s1 ordersToDelete))"

section \<open>The order book\<close>

definition NewOrderBook :: "string \<Rightarrow> OrderBook" where
  "NewOrderBook market =
     \<lparr>Market = market, asks = [], bids = [], AskLimits = Map.empty, BidLimits = Map.empty\<rparr>"

definition AskTotalVolume :: "state \<Rightarrow> real" where
  "AskTotalVolume s = foldl (\<lambda>totalVolume ask. totalVolume + TotalVolume (limit_heap s ask)) 0 (asks (ob s))"

definition BidTotalVolume :: "state \<Rightarrow> real" where
  "BidTotalVolume s = foldl (\<lambda>totalVolume bid. totalVolume + TotalVolume (limit_heap s bid)) 0 (bids (ob s))"

text \<open>
  \<open>Asks\<close> and \<open>Bids\<close> sort the side slice in place (ascending price for asks, descending
  price for bids) and return it.
\<close>

definition Asks :: "state \<Rightarrow> limit_ref list \<times> state" where
  "Asks s =
     (let s1 = upd_ob (\<lambda>b. b\<lparr>asks := sort_key (\<lambda>l. Price (limit_heap s l)) (asks b)\<rparr>) s
      in (asks (ob s1), s1))"

definition Bids :: "state \<Rightarrow> limit_ref list \<times> state" where
  "Bids s =
     (let s1 = upd_ob (\<lambda>b. b\<lparr>bids := sort_key (\<lambda>l. - Price (limit_heap s l)) (bids b)\<rparr>) s
      in (bids (ob s1), s1))"

text \<open>
  The loop of \<open>deleteLimit\<close> has no \<open>break\<close>: it goes on over the shortened slice.
\<close>

function deleteLimit_loop :: "nat \<Rightarrow> limit_ref \<Rightarrow> limit_ref list \<Rightarrow> limit_ref list" where
  "deleteLimit_loop i limit xs =
     (if i < length xs then
        (if xs ! i = limit then deleteLimit_loop (Suc i) limit (butlast (xs[i := last xs]))
         else deleteLimit_loop (Suc i) limit xs)
      else xs)"
  by pat_completeness auto
termination
  by (relation "measure (\<lambda>(i, limit, xs). length xs - i)") auto

definition deleteLimit :: "OrderPlacement \<Rightarrow> limit_ref \<Rightarrow> state \<Rightarrow> state" where
  "deleteLimit limitPlacement limit s =
     (if limitPlacement = BID_ORDER then
        upd_ob (\<lambda>b. b\<lparr>bids := deleteLimit_loop 0 limit (bids b)\<rparr>)
          (upd_ob (\<lambda>b. b\<lparr>BidLimits := (BidLimits b)(Price (limit_heap s limit) := None)\<rparr>) s)
      else
        upd_ob (\<lambda>b. b\<lparr>asks := deleteLimit_loop 0 limit (asks b)\<rparr>)
          (upd_ob (\<lambda>b. b\<lparr>AskLimits := (AskLimits b)(Price (limit_heap s limit) := None)\<rparr>) s))"

definition PlaceLimitOrder :: "real \<Rightarrow> order_ref \<Rightarrow> state \<Rightarrow> error option \<times> state" where
  "PlaceLimitOrder price order s =
     (let placement = OrderPlacement (order_heap s order) in
      if placement \<noteq> BID_ORDER \<and> placement \<noteq> ASK_ORDER then (Some InvalidOrderPlacement, s)
      else
        (let found = (if placement = BID_ORDER then BidLimits (ob s) price
                      else AskLimits (ob s) price);
             (limit, s1) =
               (case found of
                  Some l \<Rightarrow> (l, s)
                | None \<Rightarrow>
                    (let (l, t) = NewLimit price s
                     in if placement = BID_ORDER
                        then (l, upd_ob (\<lambda>b. b\<lparr>bids := bids b @ [l],
                                                BidLimits := (BidLimits b)(price \<mapsto> l)\<rparr>) t)
                        else (l, upd_ob (\<lambda>b. b\<lparr>asks := asks b @ [l],
                                                AskLimits := (AskLimits b)(price \<mapsto> l)\<rparr>) t)));
             s2 = AddOrder limit order s1
         in (None, s2\<lparr>OrderIndex := (OrderIndex s2)
                         (ID (order_heap s2 order) \<mapsto>
                            \<lparr>Order = order, OrderMetadata.Market = Market (ob s2)\<rparr>)\<rparr>)))"

text \<open>
  \<open>for _, limit := range ob.Asks()\<close> evaluates the slice once and then reads element \<open>k\<close>
  from its backing array at each iteration, while \<open>deleteLimit\<close> writes into the same array
  and shortens \<open>ob.asks\<close>. The loop below carries that array: after a deletion its first
  cells hold the shortened slice and the cells behind keep their old content.
\<close>

definition backing_write :: "limit_ref list \<Rightarrow> limit_ref list \<Rightarrow> limit_ref list" where
  "backing_write arr sl = map (\<lambda>j. if j < length sl then sl ! j else arr ! j) [0..<length arr]"

definition side_limits :: "OrderPlacement \<Rightarrow> state \<Rightarrow> limit_ref list" where
  "side_limits side s = (if side = BID_ORDER then bids (ob s) else asks (ob s))"

function PlaceMarketOrder_loop :: "OrderPlacement \<Rightarrow> order_ref \<Rightarrow> nat \<Rightarrow> limit_ref list \<Rightarrow> state
    \<Rightarrow> Match list \<times> state" where
  "PlaceMarketOrder_loop side order k arr s =
     (if k < length arr then
        (let limit = arr ! k;
             (limitMatches, s1) = Fill limit order s;
             deleted = (TotalVolume (limit_heap s1 limit) = 0);
             s2 = (if deleted then deleteLimit side limit s1 else s1);
             arr2 = (if deleted then backing_write arr (side_limits side s2) else arr)
         in if IsFilled (order_heap s2 order) then (limitMatches, s2)
            else (let (matches, s3) = PlaceMarketOrder_loop side order (Suc k) arr2 s2
                  in (limitMatches @ matches, s3)))
      else ([], s))"
  by pat_completeness auto
termination
  by (relation "measure (\<lambda>(side, order, k, arr, s). length arr - k)")
    (auto simp: backing_write_def)

definition PlaceMarketOrder :: "order_ref \<Rightarrow> state \<Rightarrow> (error + Match list) \<times> state" where
  "PlaceMarketOrder order s =
     (if OrderPlacement (order_heap s order) = BID_ORDER then
        (if Size (order_heap s order) > AskTotalVolume s
         then (Inl (NotEnoughAskVolume (AskTotalVolume s) (Size (order_heap s order))), s)
         else (let (arr, s0) = Asks s;
                   (matches, s1) = PlaceMarketOrder_loop ASK_ORDER order 0 arr s0
               in (Inr matches, s1)))
      else
        (if Size (order_heap s order) > BidTotalVolume s
         then (Inl (NotEnoughBidVolume (Size (order_heap s order)) (BidTotalVolume s)), s)
         else (let (arr, s0) = Bids s;
                   (matches, s1) = PlaceMarketOrder_loop BID_ORDER order 0 arr s0
               in (Inr matches, s1))))"

text \<open>
  \<open>CancelOrderByID\<close> scans the Limits of the declared side and their orders without
  changing anything until the first order with the id is met.
\<close>

fun find_order :: "int \<Rightarrow> order_ref list \<Rightarrow> state \<Rightarrow> order_ref option" where
  "find_order orderId [] s = None"
| "find_order orderId (r # rs) s =
     (if ID (order_heap s r) = orderId then Some r else find_order orderId rs s)"

fun find_limit_order :: "int \<Rightarrow> limit_ref list \<Rightarrow> state \<Rightarrow> (limit_ref \<times> order_ref) option" where
  "find_limit_order orderId [] s = None"
| "find_limit_order orderId (limit # limits) s =
     (case find_order orderId (Orders (limit_heap s limit)) s of
        Some r \<Rightarrow> Some (limit, r)
      | None \<Rightarrow> find_limit_order orderId limits s)"

definition CancelOrderByID :: "int \<Rightarrow> OrderPlacement \<Rightarrow> state \<Rightarrow> error option \<times> state" where
  "CancelOrderByID orderId orderPlacement s =
     (case find_limit_order orderId (side_limits orderPlacement s) s of
        None \<Rightarrow> (Some ErrNotFound, s)
      | Some (limit, order) \<Rightarrow>
          (let s1 = DeleteOrder limit order s;
               s2 = s1\<lparr>OrderIndex := (OrderIndex s1)(ID (order_heap s1 order) := None)\<rparr>;
               s3 = (if TotalVolume (limit_heap s2 limit) = 0
                     then deleteLimit orderPlacement limit s2 else s2)
           in (None, s3)))"

section \<open>Runs of the engine\<close>

text \<open>
  A process starts with empty stores, an empty index, the id counter at zero and one new
  order book. The callers of the package (the HTTP handlers and the tests) build every order
  with \<open>NewOrder\<close> right before placing it; a command carries what they pass in.
\<close>

definition null_Order :: Order where
  "null_Order = \<lparr>ID = 0, OrderPlacement = [], Size = 0, Limit = None, Timestamp = 0\<rparr>"

definition null_Limit :: Limit where
  "null_Limit = \<lparr>Price = 0, Orders = [], TotalVolume = 0\<rparr>"

definition init_state :: "string \<Rightarrow> state" where
  "init_state market =
     \<lparr>order_heap = (\<lambda>_. null_Order), order_next = 0,
      limit_heap = (\<lambda>_. null_Limit), limit_next = 0,
      ob = NewOrderBook market, OrderIndex = Map.empty, orderIdSequence = 0\<rparr>"

datatype command =
  LimitOrderCmd OrderPlacement real real int
  | MarketOrderCmd OrderPlacement real int
  | CancelCmd int OrderPlacement

fun exec :: "command \<Rightarrow> state \<Rightarrow> state" where
  "exec (LimitOrderCmd placement sz price now) s =
     (let (order, s1) = NewOrder placement sz now s in snd (PlaceLimitOrder price order s1))"
| "exec (MarketOrderCmd placement sz now) s =
     (let (order, s1) = NewOrder placement sz now s in snd (PlaceMarketOrder order s1))"
| "exec (CancelCmd orderId placement) s = snd (CancelOrderByID orderId placement s)"

definition run :: "command list \<Rightarrow> state \<Rightarrow> state" where
  "run cmds s = foldl (\<lambda>t c. exec c t) s cmds"

section \<open>Books used by the test suite\<close>

text \<open>
  The books built in \<open>orderbook_test.go\<close>: two asks of size 100 at 10000 and 12000
  (the rejection test), the four asks of the matching test, and the two bids at different
  prices of the placement test.
\<close>

definition book_two_asks :: state where
  "book_two_asks =
     run [LimitOrderCmd ASK_ORDER 100 10000 1, LimitOrderCmd ASK_ORDER 100 12000 2]
       (init_state ''ETH'')"

definition book_four_asks :: "string \<Rightarrow> int \<Rightarrow> int \<Rightarrow> int \<Rightarrow> int \<Rightarrow> state" where
  "book_four_asks market t1 t2 t3 t4 =
     run [LimitOrderCmd ASK_ORDER 100 10000 t1, LimitOrderCmd ASK_ORDER 350 12000 t2,
          LimitOrderCmd ASK_ORDER 15 13000 t3, LimitOrderCmd ASK_ORDER 51 12000 t4]
       (init_state market)"

definition book_two_levels :: state where
  "book_two_levels =
     run [LimitOrderCmd BID_ORDER 10 10000 1, LimitOrderCmd BID_ORDER 2000 18000 2]
       (init_state ''ETH'')"

definition book_one_ask :: state where
  "book_one_ask = run [LimitOrderCmd ASK_ORDER 5 100 1] (init_state ''ETH'')"

text \<open>
  A book in which a market bid of size 150 has filled the ask of size 100 at 10000 and left
  1 of the ask of size 51 at 12000; and a bid of size 3 at 120 placed into a book whose only
  ask rests at 100.
\<close>

definition book_partial_fill :: state where
  "book_partial_fill =
     run [LimitOrderCmd ASK_ORDER 100 10000 1, LimitOrderCmd ASK_ORDER 51 12000 2,
          MarketOrderCmd BID_ORDER 150 3]
       (init_state ''ETH'')"

definition crossing_bid :: "order_ref \<times> state" where
  "crossing_bid = NewOrder BID_ORDER 3 2 book_one_ask"

definition book_crossed :: state where
  "book_crossed = snd (PlaceLimitOrder 120 (fst crossing_bid) (snd crossing_bid))"





section \<open>Invariants and auxiliary notions\<close>

text \<open>
  Notions used to state and prove the properties below; none of them is part of the Go code.
\<close>

text \<open>The part of the state that \<open>fillOrder\<close>, \<open>Fill\<close> and \<open>DeleteOrder\<close> never touch.\<close>

definition same_book :: "state \<Rightarrow> state \<Rightarrow> bool" where
  "same_book s t \<longleftrightarrow>
     ob t = ob s \<and> order_next t = order_next s \<and> limit_next t = limit_next s \<and>
     OrderIndex t = OrderIndex s \<and> orderIdSequence t = orderIdSequence s"

definition fill_size :: "state \<Rightarrow> order_ref \<Rightarrow> order_ref \<Rightarrow> real" where
  "fill_size s matchingOrder order = min (Size (order_heap s matchingOrder)) (Size (order_heap s order))"

definition order_sizes :: "state \<Rightarrow> order_ref list \<Rightarrow> real" where
  "order_sizes s rs = sum_list (map (\<lambda>r. Size (order_heap s r)) rs)"

definition volume_invariant :: "state \<Rightarrow> limit_ref \<Rightarrow> bool" where
  "volume_invariant s l \<longleftrightarrow>
     TotalVolume (limit_heap s l) = order_sizes s (Orders (limit_heap s l))"

definition fill_state :: "limit_ref \<Rightarrow> order_ref \<Rightarrow> order_ref \<Rightarrow> state \<Rightarrow> state" where
  "fill_state l matchingOrder order s = snd (fillOrder l matchingOrder order s)"

definition walk_state :: "limit_ref \<Rightarrow> order_ref \<Rightarrow> order_ref list \<Rightarrow> state \<Rightarrow> state" where
  "walk_state l order xs s = snd (snd (Fill_walk l order xs s))"

definition walk_dels :: "limit_ref \<Rightarrow> order_ref \<Rightarrow> order_ref list \<Rightarrow> state \<Rightarrow> order_ref list" where
  "walk_dels l order xs s = fst (snd (Fill_walk l order xs s))"

text \<open>The second loop of \<open>Fill\<close>.\<close>

definition delete_all :: "limit_ref \<Rightarrow> order_ref list \<Rightarrow> state \<Rightarrow> state" where
  "delete_all l dels s = foldl (\<lambda>t orderToDelete. DeleteOrder l orderToDelete t) s dels"

definition side_map :: "OrderPlacement \<Rightarrow> state \<Rightarrow> (real \<rightharpoonup> limit_ref)" where
  "side_map side s = (if side = BID_ORDER then BidLimits (ob s) else AskLimits (ob s))"

text \<open>The loop of \<open>PlaceMarketOrder\<close> as a walk over a list of Limits.\<close>

fun market_walk :: "OrderPlacement \<Rightarrow> order_ref \<Rightarrow> limit_ref list \<Rightarrow> state \<Rightarrow> Match list \<times> state" where
  "market_walk side order [] s = ([], s)"
| "market_walk side order (limit # rest) s =
     (let (limitMatches, s1) = Fill limit order s;
          s2 = (if TotalVolume (limit_heap s1 limit) = 0 then deleteLimit side limit s1 else s1)
      in if IsFilled (order_heap s2 order) then (limitMatches, s2)
         else (let (matches, s3) = market_walk side order rest s2
               in (limitMatches @ matches, s3)))"

definition fifo_ok :: "state \<Rightarrow> order_ref list \<Rightarrow> bool" where
  "fifo_ok s xs \<longleftrightarrow>
     (\<forall>i j. i < j \<and> j < length xs \<and> xs ! j < xs ! i \<longrightarrow>
        Timestamp (order_heap s (xs ! i)) \<le> Timestamp (order_heap s (xs ! j)))"

definition heap_ok :: "state \<Rightarrow> bool" where
  "heap_ok s \<longleftrightarrow>
     (\<forall>l<limit_next s.
        (\<forall>r\<in>set (Orders (limit_heap s l)). r < order_next s) \<and>
        distinct (Orders (limit_heap s l)) \<and>
        fifo_ok s (Orders (limit_heap s l)) \<and>
        volume_invariant s l \<and>
        (\<forall>k<limit_next s. k \<noteq> l \<longrightarrow>
           set (Orders (limit_heap s l)) \<inter> set (Orders (limit_heap s k)) = {}))"

definition not_resting :: "state \<Rightarrow> order_ref \<Rightarrow> bool" where
  "not_resting s order \<longleftrightarrow> (\<forall>l<limit_next s. order \<notin> set (Orders (limit_heap s l)))"

definition side_struct :: "OrderPlacement \<Rightarrow> state \<Rightarrow> bool" where
  "side_struct side s \<longleftrightarrow>
     distinct (side_limits side s) \<and>
     (\<forall>l\<in>set (side_limits side s). l < limit_next s) \<and>
     (\<forall>p l. side_map side s p = Some l \<longleftrightarrow>
        l \<in> set (side_limits side s) \<and> Price (limit_heap s l) = p)"

definition side_ok :: "OrderPlacement \<Rightarrow> state \<Rightarrow> bool" where
  "side_ok side s \<longleftrightarrow>
     side_struct side s \<and> (\<forall>l\<in>set (side_limits side s). Orders (limit_heap s l) \<noteq> [])"

definition well_formed :: "state \<Rightarrow> bool" where
  "well_formed s \<longleftrightarrow>
     heap_ok s \<and> side_ok BID_ORDER s \<and> side_ok ASK_ORDER s \<and>
     set (asks (ob s)) \<inter> set (bids (ob s)) = {}"

definition opposite :: "OrderPlacement \<Rightarrow> OrderPlacement" where
  "opposite side = (if side = BID_ORDER then ASK_ORDER else BID_ORDER)"

definition newest :: "state \<Rightarrow> order_ref \<Rightarrow> bool" where
  "newest s order \<longleftrightarrow>
     order < order_next s \<and>
     (\<forall>l<limit_next s. \<forall>r\<in>set (Orders (limit_heap s l)). r < order)"

definition well_formed_but :: "limit_ref \<Rightarrow> state \<Rightarrow> bool" where
  "well_formed_but limit s \<longleftrightarrow>
     heap_ok s \<and> side_struct BID_ORDER s \<and> side_struct ASK_ORDER s \<and>
     set (asks (ob s)) \<inter> set (bids (ob s)) = {} \<and>
     (\<forall>l\<in>set (asks (ob s)) \<union> set (bids (ob s)). l \<noteq> limit \<longrightarrow> Orders (limit_heap s l) \<noteq> [])"

definition add_limit :: "OrderPlacement \<Rightarrow> real \<Rightarrow> state \<Rightarrow> state" where
  "add_limit side price s =
     (let (l, t) = NewLimit price s
      in if side = BID_ORDER
         then upd_ob (\<lambda>b. b\<lparr>bids := bids b @ [l], BidLimits := (BidLimits b)(price \<mapsto> l)\<rparr>) t
         else upd_ob (\<lambda>b. b\<lparr>asks := asks b @ [l], AskLimits := (AskLimits b)(price \<mapsto> l)\<rparr>) t)"


definition walk_matches :: "limit_ref \<Rightarrow> order_ref \<Rightarrow> order_ref list \<Rightarrow> state \<Rightarrow> Match list" where
  "walk_matches l order xs s = fst (Fill_walk l order xs s)"


definition same_ids :: "state \<Rightarrow> state \<Rightarrow> bool" where
  "same_ids s t \<longleftrightarrow>
     order_next t = order_next s \<and> orderIdSequence t = orderIdSequence s \<and>
     (\<forall>r. ID (order_heap t r) = ID (order_heap s r))"

section \<open>Evaluation\<close>

declare DeleteOrder_loop.simps [simp del] deleteLimit_loop.simps [simp del]
  PlaceMarketOrder_loop.simps [simp del]


lemmas loop_simps = DeleteOrder_loop.simps deleteLimit_loop.simps PlaceMarketOrder_loop.simps

lemmas engine_defs =
  run_def init_state_def NewOrderBook_def NewOrder_def PlaceLimitOrder_def NewLimit_def
  AddOrder_def upd_order_def upd_limit_def upd_ob_def BID_ORDER_def ASK_ORDER_def
  PlaceMarketOrder_def AskTotalVolume_def BidTotalVolume_def Asks_def Bids_def Fill_def
  fillOrder_def IsFilled_def DeleteOrder_def sort_Orders_def deleteLimit_def
  backing_write_def side_limits_def CancelOrderByID_def Let_def null_Order_def null_Limit_def

section \<open>Effects of the operations\<close>

lemma upd_order_sel [simp]:
  "order_heap (upd_order r f s) = (order_heap s)(r := f (order_heap s r))"
  "limit_heap (upd_order r f s) = limit_heap s"
  "ob (upd_order r f s) = ob s"
  "order_next (upd_order r f s) = order_next s"
  "limit_next (upd_order r f s) = limit_next s"
  "OrderIndex (upd_order r f s) = OrderIndex s"
  "orderIdSequence (upd_order r f s) = orderIdSequence s"
  by (simp_all add: upd_order_def)

lemma upd_limit_sel [simp]:
  "limit_heap (upd_limit l f s) = (limit_heap s)(l := f (limit_heap s l))"
  "order_heap (upd_limit l f s) = order_heap s"
  "ob (upd_limit l f s) = ob s"
  "order_next (upd_limit l f s) = order_next s"
  "limit_next (upd_limit l f s) = limit_next s"
  "OrderIndex (upd_limit l f s) = OrderIndex s"
  "orderIdSequence (upd_limit l f s) = orderIdSequence s"
  by (simp_all add: upd_limit_def)

lemma upd_ob_sel [simp]:
  "ob (upd_ob f s) = f (ob s)"
  "order_heap (upd_ob f s) = order_heap s"
  "limit_heap (upd_ob f s) = limit_heap s"
  "order_next (upd_ob f s) = order_next s"
  "limit_next (upd_ob f s) = limit_next s"
  "OrderIndex (upd_ob f s) = OrderIndex s"
  "orderIdSequence (upd_ob f s) = orderIdSequence s"
  by (simp_all add: upd_ob_def)

lemma fillOrder_state:
  assumes "matchingOrder \<noteq> order"
  shows "snd (fillOrder l matchingOrder order s) =
           upd_limit l (\<lambda>x. x\<lparr>TotalVolume := TotalVolume x - fill_size s matchingOrder order\<rparr>)
             (upd_order order (\<lambda>x. x\<lparr>Size := Size x - fill_size s matchingOrder order\<rparr>)
               (upd_order matchingOrder (\<lambda>x. x\<lparr>Size := Size x - fill_size s matchingOrder order\<rparr>) s))"
  using assms
  by (auto simp: fillOrder_def fill_size_def Let_def upd_order_def upd_limit_def min.commute
      fun_upd_twist)


lemma same_book_refl [simp]: "same_book s s"
  by (simp add: same_book_def)

lemma same_book_trans: "same_book s t \<Longrightarrow> same_book t u \<Longrightarrow> same_book s u"
  by (simp add: same_book_def)

lemma fill_state_same_book: "same_book s (fill_state l m order s)"
  by (simp add: fill_state_def fillOrder_def same_book_def Let_def split: prod.splits)

lemma fill_state_limit_heap:
  "m \<noteq> order \<Longrightarrow> limit_heap (fill_state l m order s) =
     (limit_heap s)(l := (limit_heap s l)\<lparr>TotalVolume := TotalVolume (limit_heap s l) - fill_size s m order\<rparr>)"
  by (simp add: fill_state_def fillOrder_state)

lemma fill_state_order_heap:
  "m \<noteq> order \<Longrightarrow> order_heap (fill_state l m order s) r =
     (if r = m \<or> r = order then (order_heap s r)\<lparr>Size := Size (order_heap s r) - fill_size s m order\<rparr>
      else order_heap s r)"
  by (simp add: fill_state_def fillOrder_state)

lemma fill_state_not_filled:
  assumes "m \<noteq> order" "Size (order_heap (fill_state l m order s) order) \<noteq> 0"
  shows "Size (order_heap (fill_state l m order s) m) = 0"
  using assms by (auto simp: fill_state_order_heap fill_size_def min_def split: if_splits)

lemma Fill_walk_Cons:
  "Fill_walk l order (m # rest) s =
     (let s1 = fill_state l m order s;
          match = fst (fillOrder l m order s);
          ordersToDelete = (if Size (order_heap s1 m) = 0 then [m] else [])
      in if Size (order_heap s1 order) = 0 then ([match], ordersToDelete, s1)
         else (match # fst (Fill_walk l order rest s1),
               ordersToDelete @ fst (snd (Fill_walk l order rest s1)),
               snd (snd (Fill_walk l order rest s1))))"
  by (simp add: Let_def IsFilled_def fill_state_def split: prod.splits)

lemma walk_state_Nil [simp]: "walk_state l order [] s = s"
  by (simp add: walk_state_def)

lemma walk_state_Cons:
  "walk_state l order (m # rest) s =
     (if Size (order_heap (fill_state l m order s) order) = 0 then fill_state l m order s
      else walk_state l order rest (fill_state l m order s))"
  by (simp add: walk_state_def Fill_walk_Cons Let_def del: Fill_walk.simps)

lemma walk_dels_Nil [simp]: "walk_dels l order [] s = []"
  by (simp add: walk_dels_def)

lemma walk_dels_Cons:
  "walk_dels l order (m # rest) s =
     (if Size (order_heap (fill_state l m order s) m) = 0 then [m] else []) @
     (if Size (order_heap (fill_state l m order s) order) = 0 then []
      else walk_dels l order rest (fill_state l m order s))"
  by (simp add: walk_dels_def Fill_walk_Cons Let_def del: Fill_walk.simps)

lemma walk_state_same_book: "same_book s (walk_state l order xs s)"
proof (induction xs arbitrary: s)
  case Nil
  show ?case by simp
next
  case (Cons m rest)
  show ?case
    using same_book_trans [OF fill_state_same_book Cons.IH] fill_state_same_book
    by (simp add: walk_state_Cons)
qed

text \<open>The walk lowers the Limit's volume by what the incoming order loses.\<close>

lemma walk_state_TotalVolume:
  assumes "order \<notin> set xs"
  shows "TotalVolume (limit_heap (walk_state l order xs s) l) =
           TotalVolume (limit_heap s l) -
             (Size (order_heap s order) - Size (order_heap (walk_state l order xs s) order))"
  using assms
proof (induction xs arbitrary: s)
  case Nil
  show ?case by simp
next
  case (Cons m rest)
  then have ne: "m \<noteq> order" and nin: "order \<notin> set rest" by auto
  define s1 where "s1 = fill_state l m order s"
  have lh: "TotalVolume (limit_heap s1 l) = TotalVolume (limit_heap s l) - fill_size s m order"
    and sz: "Size (order_heap s1 order) = Size (order_heap s order) - fill_size s m order"
    by (simp_all add: s1_def fill_state_limit_heap [OF ne] fill_state_order_heap [OF ne])
  show ?case
  proof (cases "Size (order_heap s1 order) = 0")
    case True
    then have "walk_state l order (m # rest) s = s1" by (simp add: walk_state_Cons s1_def)
    then show ?thesis using lh sz by simp
  next
    case False
    then have w: "walk_state l order (m # rest) s = walk_state l order rest s1"
      by (simp add: walk_state_Cons s1_def)
    show ?thesis unfolding w using Cons.IH [OF nin, of s1] lh sz by linarith
  qed
qed

lemma walk_state_limits:
  assumes "order \<notin> set xs"
  shows "Orders (limit_heap (walk_state l order xs s) k) = Orders (limit_heap s k) \<and>
         Price (limit_heap (walk_state l order xs s) k) = Price (limit_heap s k) \<and>
         (k \<noteq> l \<longrightarrow> limit_heap (walk_state l order xs s) k = limit_heap s k)"
  using assms
proof (induction xs arbitrary: s)
  case Nil
  show ?case by simp
next
  case (Cons m rest)
  then have ne: "m \<noteq> order" and nin: "order \<notin> set rest" by auto
  show ?case
    using Cons.IH [OF nin, of "fill_state l m order s"]
    by (simp add: walk_state_Cons fill_state_limit_heap [OF ne])
qed

lemma walk_state_other_orders:
  assumes "r \<notin> set xs" "r \<noteq> order" "order \<notin> set xs"
  shows "order_heap (walk_state l order xs s) r = order_heap s r"
  using assms
proof (induction xs arbitrary: s)
  case Nil
  show ?case by simp
next
  case (Cons m rest)
  then have ne: "m \<noteq> order" and nin: "order \<notin> set rest" and r: "r \<notin> set rest" "r \<noteq> m"
    by auto
  have "order_heap (fill_state l m order s) r = order_heap s r"
    using r Cons.prems(2) by (simp add: fill_state_order_heap [OF ne])
  then show ?case
    using Cons.IH [OF r(1) Cons.prems(2) nin, of "fill_state l m order s"]
    by (simp add: walk_state_Cons)
qed

lemma walk_state_order_fields:
  assumes "order \<notin> set xs"
  shows "ID (order_heap (walk_state l order xs s) r) = ID (order_heap s r) \<and>
         Timestamp (order_heap (walk_state l order xs s) r) = Timestamp (order_heap s r) \<and>
         OrderPlacement (order_heap (walk_state l order xs s) r) = OrderPlacement (order_heap s r) \<and>
         Limit (order_heap (walk_state l order xs s) r) = Limit (order_heap s r)"
  using assms
proof (induction xs arbitrary: s)
  case Nil
  show ?case by simp
next
  case (Cons m rest)
  then have ne: "m \<noteq> order" and nin: "order \<notin> set rest" by auto
  show ?case
    using Cons.IH [OF nin, of "fill_state l m order s"]
    by (simp add: walk_state_Cons fill_state_order_heap [OF ne])
qed

text \<open>The sizes of the walked orders go down by the same amount in total.\<close>

lemma order_sizes_Cons [simp]:
  "order_sizes s (r # rs) = Size (order_heap s r) + order_sizes s rs"
  by (simp add: order_sizes_def)

lemma order_sizes_Nil [simp]: "order_sizes s [] = 0"
  by (simp add: order_sizes_def)

lemma order_sizes_cong:
  "(\<And>r. r \<in> set rs \<Longrightarrow> Size (order_heap t r) = Size (order_heap s r))
   \<Longrightarrow> order_sizes t rs = order_sizes s rs"
  unfolding order_sizes_def by (induction rs) auto

lemma walk_state_order_sizes:
  assumes "order \<notin> set xs" "distinct xs"
  shows "order_sizes (walk_state l order xs s) xs =
           order_sizes s xs -
             (Size (order_heap s order) - Size (order_heap (walk_state l order xs s) order))"
  using assms
proof (induction xs arbitrary: s)
  case Nil
  show ?case by simp
next
  case (Cons m rest)
  then have ne: "m \<noteq> order" and nin: "order \<notin> set rest" and m: "m \<notin> set rest"
    and d: "distinct rest" by auto
  define s1 where "s1 = fill_state l m order s"
  have sz: "Size (order_heap s1 order) = Size (order_heap s order) - fill_size s m order"
    and szm: "Size (order_heap s1 m) = Size (order_heap s m) - fill_size s m order"
    by (simp_all add: s1_def fill_state_order_heap [OF ne])
  have rest1: "order_sizes s1 rest = order_sizes s rest"
    using m nin by (intro order_sizes_cong) (auto simp: s1_def fill_state_order_heap [OF ne])
  show ?case
  proof (cases "Size (order_heap s1 order) = 0")
    case True
    then have "walk_state l order (m # rest) s = s1" by (simp add: walk_state_Cons s1_def)
    then show ?thesis using sz szm rest1 by simp
  next
    case False
    then have w: "walk_state l order (m # rest) s = walk_state l order rest s1"
      by (simp add: walk_state_Cons s1_def)
    have "Size (order_heap (walk_state l order rest s1) m) = Size (order_heap s1 m)"
      using walk_state_other_orders [OF m ne nin] by simp
    then show ?thesis unfolding w using Cons.IH [OF nin d, of s1] sz szm rest1 by simp
  qed
qed

lemma walk_state_volume_invariant:
  assumes "order \<notin> set (Orders (limit_heap s l))" "distinct (Orders (limit_heap s l))"
    "volume_invariant s l"
  shows "volume_invariant (walk_state l order (Orders (limit_heap s l)) s) l"
  using assms walk_state_TotalVolume [OF assms(1), of l s]
    walk_state_order_sizes [OF assms(1,2), of l s] walk_state_limits [OF assms(1), of l s l]
  by (simp add: volume_invariant_def)

text \<open>The orders queued for deletion.\<close>

lemma walk_dels_subset: "set (walk_dels l order xs s) \<subseteq> set xs"
proof (induction xs arbitrary: s)
  case Nil
  show ?case by simp
next
  case (Cons m rest)
  show ?case using Cons.IH [of "fill_state l m order s"] by (auto simp: walk_dels_Cons)
qed

lemma walk_dels_distinct: "distinct xs \<Longrightarrow> distinct (walk_dels l order xs s)"
proof (induction xs arbitrary: s)
  case Nil
  show ?case by simp
next
  case (Cons m rest)
  then show ?case
    using walk_dels_subset [of l order rest "fill_state l m order s"]
    by (auto simp: walk_dels_Cons)
qed

lemma walk_dels_filled:
  assumes "order \<notin> set xs" "distinct xs" "r \<in> set (walk_dels l order xs s)"
  shows "Size (order_heap (walk_state l order xs s) r) = 0"
  using assms
proof (induction xs arbitrary: s)
  case Nil
  then show ?case by simp
next
  case (Cons m rest)
  then have ne: "m \<noteq> order" and nin: "order \<notin> set rest" and m: "m \<notin> set rest"
    and d: "distinct rest" by auto
  define s1 where "s1 = fill_state l m order s"
  show ?case
  proof (cases "Size (order_heap s1 order) = 0")
    case True
    then show ?thesis using Cons.prems(3)
      by (auto simp: walk_state_Cons walk_dels_Cons s1_def split: if_splits)
  next
    case False
    then have w: "walk_state l order (m # rest) s = walk_state l order rest s1"
      by (simp add: walk_state_Cons s1_def)
    from Cons.prems(3) False
    consider "r = m" "Size (order_heap s1 m) = 0" | "r \<in> set (walk_dels l order rest s1)"
      by (auto simp: walk_dels_Cons s1_def split: if_splits)
    then show ?thesis
    proof cases
      case 1
      then show ?thesis unfolding w using walk_state_other_orders [OF m ne nin, of l s1] by simp
    next
      case 2
      then show ?thesis unfolding w by (rule Cons.IH [OF nin d])
    qed
  qed
qed

lemma walk_dels_all:
  assumes "order \<notin> set xs" "Size (order_heap (walk_state l order xs s) order) \<noteq> 0"
  shows "walk_dels l order xs s = xs"
  using assms
proof (induction xs arbitrary: s)
  case Nil
  show ?case by simp
next
  case (Cons m rest)
  then have ne: "m \<noteq> order" and nin: "order \<notin> set rest" by auto
  define s1 where "s1 = fill_state l m order s"
  have nf: "Size (order_heap s1 order) \<noteq> 0"
    using Cons.prems(2) by (auto simp: walk_state_Cons s1_def split: if_splits)
  then have w: "walk_state l order (m # rest) s = walk_state l order rest s1"
    by (simp add: walk_state_Cons s1_def)
  have "Size (order_heap s1 m) = 0"
    using fill_state_not_filled [OF ne] nf by (simp add: s1_def)
  moreover have "walk_dels l order rest s1 = rest"
    using Cons.prems(2) unfolding w by (rule Cons.IH [OF nin])
  ultimately show ?case using nf by (simp add: walk_dels_Cons s1_def)
qed

lemma mset_swap_remove:
  assumes "j < length xs"
  shows "mset (butlast (xs[j := last xs])) = mset xs - {#xs ! j#}"
proof (cases xs rule: rev_cases)
  case Nil
  with assms show ?thesis by simp
next
  case (snoc ys z)
  show ?thesis
  proof (cases "j = length ys")
    case True
    then show ?thesis by (simp add: snoc)
  next
    case False
    with assms snoc have j: "j < length ys" by simp
    then have "(ys @ [z])[j := z] = ys[j := z] @ [z]" by (simp add: list_update_append)
    then show ?thesis using j by (simp add: snoc mset_update nth_append)
  qed
qed

lemma mset_DeleteOrder_loop:
  "mset (DeleteOrder_loop i r xs) = (if r \<in> set (drop i xs) then mset xs - {#r#} else mset xs)"
proof (induction i r xs rule: DeleteOrder_loop.induct)
  case (1 i r xs)
  show ?case
  proof (cases "i < length xs")
    case False
    then show ?thesis by (subst DeleteOrder_loop.simps) simp
  next
    case True
    then have dr: "drop i xs = xs ! i # drop (Suc i) xs" by (simp add: Cons_nth_drop_Suc)
    show ?thesis
    proof (cases "xs ! i = r")
      case eq: True
      then show ?thesis using True dr mset_swap_remove [OF True]
        by (subst DeleteOrder_loop.simps) simp
    next
      case ne: False
      then show ?thesis using True dr "1.IH" [OF True ne]
        by (subst DeleteOrder_loop.simps) simp
    qed
  qed
qed

lemma mset_DeleteOrder_loop_0: "mset (DeleteOrder_loop 0 r xs) = mset xs - {#r#}"
  by (simp add: mset_DeleteOrder_loop)

lemma mset_sort_Orders [simp]: "mset (sort_Orders s xs) = mset xs"
  by (simp add: sort_Orders_def)

lemma order_sizes_mset:
  "order_sizes s xs = sum_mset (image_mset (\<lambda>r. Size (order_heap s r)) (mset xs))"
  unfolding order_sizes_def by (induction xs) auto

lemma order_sizes_remove:
  assumes "mset ys = mset xs - {#r#}" "r \<in> set xs"
  shows "order_sizes s ys = order_sizes s xs - Size (order_heap s r)"
proof -
  from assms have "mset xs = add_mset r (mset ys)" by simp
  then show ?thesis by (simp add: order_sizes_mset)
qed

lemma DeleteOrder_same_book: "same_book s (DeleteOrder l r s)"
  by (simp add: DeleteOrder_def same_book_def Let_def)

lemma DeleteOrder_order_heap:
  "order_heap (DeleteOrder l r s) = (order_heap s)(r := (order_heap s r)\<lparr>Limit := None\<rparr>)"
  by (simp add: DeleteOrder_def Let_def)

lemma sort_Orders_cong:
  "(\<And>r. Timestamp (order_heap t r) = Timestamp (order_heap s r)) \<Longrightarrow> sort_Orders t = sort_Orders s"
  by (rule ext) (simp add: sort_Orders_def)

lemma DeleteOrder_limits:
  "Orders (limit_heap (DeleteOrder l r s) l) = sort_Orders s (DeleteOrder_loop 0 r (Orders (limit_heap s l)))"
  "TotalVolume (limit_heap (DeleteOrder l r s) l) = TotalVolume (limit_heap s l) - Size (order_heap s r)"
  "Price (limit_heap (DeleteOrder l r s) k) = Price (limit_heap s k)"
  "k \<noteq> l \<Longrightarrow> limit_heap (DeleteOrder l r s) k = limit_heap s k"
proof -
  have "sort_Orders (upd_limit l (\<lambda>x. x\<lparr>TotalVolume := TotalVolume x - Size (order_heap s r)\<rparr>)
          (upd_order r (\<lambda>x. x\<lparr>Limit := None\<rparr>)
            (upd_limit l (\<lambda>x. x\<lparr>Orders := DeleteOrder_loop 0 r (Orders x)\<rparr>) s))) = sort_Orders s"
    by (rule sort_Orders_cong) simp
  then show "Orders (limit_heap (DeleteOrder l r s) l) = sort_Orders s (DeleteOrder_loop 0 r (Orders (limit_heap s l)))"
    by (simp add: DeleteOrder_def Let_def)
qed (simp_all add: DeleteOrder_def Let_def)

lemma DeleteOrder_mset:
  "mset (Orders (limit_heap (DeleteOrder l r s) l)) = mset (Orders (limit_heap s l)) - {#r#}"
  by (simp add: DeleteOrder_limits mset_DeleteOrder_loop_0)

lemma DeleteOrder_volume_invariant:
  assumes "volume_invariant s l" "r \<in> set (Orders (limit_heap s l))"
  shows "volume_invariant (DeleteOrder l r s) l"
proof -
  have "order_sizes (DeleteOrder l r s) (Orders (limit_heap (DeleteOrder l r s) l)) =
          order_sizes s (Orders (limit_heap (DeleteOrder l r s) l))"
    by (rule order_sizes_cong) (simp add: DeleteOrder_order_heap)
  also have "\<dots> = order_sizes s (Orders (limit_heap s l)) - Size (order_heap s r)"
    by (rule order_sizes_remove [OF DeleteOrder_mset assms(2)])
  finally show ?thesis using assms(1) by (simp add: volume_invariant_def DeleteOrder_limits)
qed

lemma delete_all_Nil [simp]: "delete_all l [] s = s"
  by (simp add: delete_all_def)

lemma delete_all_Cons [simp]: "delete_all l (r # rs) s = delete_all l rs (DeleteOrder l r s)"
  by (simp add: delete_all_def)

lemma delete_all_same_book: "same_book s (delete_all l dels s)"
proof (induction dels arbitrary: s)
  case Nil
  show ?case by simp
next
  case (Cons r rs)
  show ?case using same_book_trans [OF DeleteOrder_same_book Cons.IH] by simp
qed

lemma delete_all_orders:
  "Size (order_heap (delete_all l dels s) r) = Size (order_heap s r) \<and>
   ID (order_heap (delete_all l dels s) r) = ID (order_heap s r) \<and>
   Timestamp (order_heap (delete_all l dels s) r) = Timestamp (order_heap s r) \<and>
   OrderPlacement (order_heap (delete_all l dels s) r) = OrderPlacement (order_heap s r) \<and>
   (r \<notin> set dels \<longrightarrow> order_heap (delete_all l dels s) r = order_heap s r)"
proof (induction dels arbitrary: s)
  case Nil
  show ?case by simp
next
  case (Cons d rs)
  show ?case using Cons.IH [of "DeleteOrder l d s"] by (simp add: DeleteOrder_order_heap)
qed

lemma delete_all_limits:
  "Price (limit_heap (delete_all l dels s) k) = Price (limit_heap s k) \<and>
   (k \<noteq> l \<longrightarrow> limit_heap (delete_all l dels s) k = limit_heap s k) \<and>
   mset (Orders (limit_heap (delete_all l dels s) l)) = mset (Orders (limit_heap s l)) - mset dels \<and>
   TotalVolume (limit_heap (delete_all l dels s) l) = TotalVolume (limit_heap s l) - order_sizes s dels"
proof (induction dels arbitrary: s)
  case Nil
  show ?case by simp
next
  case (Cons d rs)
  have "order_sizes (DeleteOrder l d s) rs = order_sizes s rs"
    by (rule order_sizes_cong) (simp add: DeleteOrder_order_heap)
  moreover have "mset (Orders (limit_heap s l)) - {#d#} - mset rs =
      mset (Orders (limit_heap s l)) - mset (d # rs)"
    by (simp add: diff_diff_add [symmetric])
  ultimately show ?case using Cons.IH [of "DeleteOrder l d s"]
    by (simp add: DeleteOrder_limits(2,3,4) DeleteOrder_mset)
qed

lemma delete_all_volume_invariant:
  assumes "volume_invariant s l" "mset dels \<subseteq># mset (Orders (limit_heap s l))"
  shows "volume_invariant (delete_all l dels s) l"
  using assms
proof (induction dels arbitrary: s)
  case Nil
  then show ?case by simp
next
  case (Cons d rs)
  from Cons.prems(2) have d: "d \<in> set (Orders (limit_heap s l))"
    by (metis insert_subset_eq_iff mset.simps(2) set_mset_mset)
  from Cons.prems(2) have "mset rs \<subseteq># mset (Orders (limit_heap s l)) - {#d#}"
    by (simp add: insert_subset_eq_iff)
  then have "mset rs \<subseteq># mset (Orders (limit_heap (DeleteOrder l d s) l))"
    by (simp add: DeleteOrder_mset)
  with DeleteOrder_volume_invariant [OF Cons.prems(1) d] show ?case
    by (simp add: Cons.IH)
qed

lemma Fill_eq:
  "Fill l order s =
     (fst (Fill_walk l order (Orders (limit_heap s l)) s),
      delete_all l (walk_dels l order (Orders (limit_heap s l)) s)
        (walk_state l order (Orders (limit_heap s l)) s))"
  by (simp add: Fill_def delete_all_def walk_dels_def walk_state_def split: prod.splits)

lemma mset_deleteLimit_loop_absent:
  "limit \<notin> set (drop i xs) \<Longrightarrow> deleteLimit_loop i limit xs = xs"
proof (induction i limit xs rule: deleteLimit_loop.induct)
  case (1 i limit xs)
  show ?case
  proof (cases "i < length xs")
    case False
    then show ?thesis by (subst deleteLimit_loop.simps) simp
  next
    case True
    then have dr: "drop i xs = xs ! i # drop (Suc i) xs" by (simp add: Cons_nth_drop_Suc)
    with "1.prems" have ne: "xs ! i \<noteq> limit" and "limit \<notin> set (drop (Suc i) xs)" by auto
    with "1.IH"(2) [OF True ne] True show ?thesis
      by (subst deleteLimit_loop.simps) simp
  qed
qed

lemma deleteLimit_loop_distinct:
  assumes "distinct xs" "i \<le> j" "j < length xs"
  shows "deleteLimit_loop i (xs ! j) xs = butlast (xs[j := last xs])"
  using assms
proof (induction "j - i" arbitrary: i)
  case 0
  then have ij: "i = j" by simp
  let ?ys = "butlast (xs[j := last xs])"
  have "mset ?ys = mset xs - {#xs ! j#}" by (rule mset_swap_remove [OF "0.prems"(3)])
  moreover have "count (mset xs) (xs ! j) = 1"
    using "0.prems"(1,3) by (simp add: distinct_count_atmost_1)
  ultimately have "count (mset ?ys) (xs ! j) = 0" by simp
  then have "xs ! j \<notin> set ?ys" by (simp add: count_eq_zero_iff)
  then have "xs ! j \<notin> set (drop (Suc j) ?ys)" by (meson in_set_dropD)
  then have "deleteLimit_loop (Suc j) (xs ! j) ?ys = ?ys"
    by (rule mset_deleteLimit_loop_absent)
  then show ?case using "0.prems"(3) ij by (subst deleteLimit_loop.simps) simp
next
  case (Suc n)
  then have lt: "i < j" and il: "i < length xs" by simp_all
  with Suc.prems have ne: "xs ! i \<noteq> xs ! j" by (simp add: nth_eq_iff_index_eq)
  have "deleteLimit_loop (Suc i) (xs ! j) xs = butlast (xs[j := last xs])"
    using Suc.hyps(2) Suc.prems lt by (intro Suc.hyps(1)) simp_all
  then show ?case using il ne by (subst deleteLimit_loop.simps) simp
qed

lemma deleteLimit_loop_member:
  assumes "distinct xs" "limit \<in> set xs"
  shows "\<exists>j<length xs. xs ! j = limit \<and> deleteLimit_loop 0 limit xs = butlast (xs[j := last xs])"
proof -
  from assms(2) obtain j where j: "j < length xs" "xs ! j = limit" by (auto simp: in_set_conv_nth)
  with deleteLimit_loop_distinct [OF assms(1) _ j(1), of 0] show ?thesis by auto
qed

lemma mset_deleteLimit_loop:
  assumes "distinct xs"
  shows "mset (deleteLimit_loop 0 limit xs) = mset xs - {#limit#}"
proof (cases "limit \<in> set xs")
  case True
  from deleteLimit_loop_member [OF assms True] mset_swap_remove show ?thesis by metis
next
  case False
  then have "deleteLimit_loop 0 limit xs = xs" by (simp add: mset_deleteLimit_loop_absent)
  with False show ?thesis by simp
qed

lemma deleteLimit_heaps [simp]:
  "order_heap (deleteLimit side limit s) = order_heap s"
  "limit_heap (deleteLimit side limit s) = limit_heap s"
  "order_next (deleteLimit side limit s) = order_next s"
  "limit_next (deleteLimit side limit s) = limit_next s"
  "OrderIndex (deleteLimit side limit s) = OrderIndex s"
  "orderIdSequence (deleteLimit side limit s) = orderIdSequence s"
  by (simp_all add: deleteLimit_def)

lemma deleteLimit_side:
  "side_limits side (deleteLimit side limit s) = deleteLimit_loop 0 limit (side_limits side s)"
  "side_map side (deleteLimit side limit s) = (side_map side s)(Price (limit_heap s limit) := None)"
  by (simp_all add: deleteLimit_def side_limits_def side_map_def)

lemma deleteLimit_other_side:
  "(side' = BID_ORDER) \<noteq> (side = BID_ORDER) \<Longrightarrow>
     side_limits side' (deleteLimit side limit s) = side_limits side' s \<and>
     side_map side' (deleteLimit side limit s) = side_map side' s"
  by (auto simp: deleteLimit_def side_limits_def side_map_def)

lemma Fill_same_book: "same_book s (snd (Fill l order s))"
  using same_book_trans [OF walk_state_same_book delete_all_same_book]
  by (simp add: Fill_eq)

lemma side_limits_same_book: "same_book s t \<Longrightarrow> side_limits side t = side_limits side s"
  by (simp add: same_book_def side_limits_def)

lemma side_map_same_book: "same_book s t \<Longrightarrow> side_map side t = side_map side s"
  by (simp add: same_book_def side_map_def)

lemma backing_write_nth:
  "j < length arr \<Longrightarrow> backing_write arr sl ! j = (if j < length sl then sl ! j else arr ! j)"
  by (simp add: backing_write_def)

lemma backing_write_tail:
  assumes pre: "take (length sl) arr = sl" and d: "distinct (drop k arr)" and k: "k < length arr"
    and ds: "distinct sl"
  shows "drop (Suc k) (backing_write arr (deleteLimit_loop 0 (arr ! k) sl)) = drop (Suc k) arr"
proof (cases "arr ! k \<in> set sl")
  case False
  then have "deleteLimit_loop 0 (arr ! k) sl = sl" by (simp add: mset_deleteLimit_loop_absent)
  moreover have "backing_write arr sl = arr"
  proof (rule nth_equalityI)
    show "length (backing_write arr sl) = length arr" by (simp add: backing_write_def)
    fix j assume "j < length (backing_write arr sl)"
    then have j: "j < length arr" by (simp add: backing_write_def)
    show "backing_write arr sl ! j = arr ! j"
    proof (cases "j < length sl")
      case True
      then have "sl ! j = take (length sl) arr ! j" by (simp add: pre)
      with True j show ?thesis by (simp add: backing_write_nth)
    next
      case False
      with j show ?thesis by (simp add: backing_write_nth)
    qed
  qed
  ultimately show ?thesis by simp
next
  case True
  from deleteLimit_loop_member [OF ds True] obtain i where
    i: "i < length sl" "sl ! i = arr ! k"
    and del: "deleteLimit_loop 0 (arr ! k) sl = butlast (sl[i := last sl])" by blast
  let ?sl' = "butlast (sl[i := last sl])"
  have sl_nth: "sl ! j = arr ! j" if "j < length sl" for j
  proof -
    have "take (length sl) arr ! j = arr ! j" using that by simp
    then show ?thesis by (simp add: pre)
  qed
  show ?thesis unfolding del
  proof (rule nth_equalityI)
    show "length (drop (Suc k) (backing_write arr ?sl')) = length (drop (Suc k) arr)"
      by (simp add: backing_write_def)
    fix n assume "n < length (drop (Suc k) (backing_write arr ?sl'))"
    then have n: "Suc k + n < length arr" by (simp add: backing_write_def)
    have ne: "arr ! (Suc k + n) \<noteq> arr ! k"
    proof -
      have "(drop k arr ! (Suc n) = drop k arr ! 0) = (Suc n = 0)"
        using d by (rule nth_eq_iff_index_eq) (use n in simp_all)
      then show ?thesis using n k by simp
    qed
    have "backing_write arr ?sl' ! (Suc k + n) = arr ! (Suc k + n)"
    proof (cases "Suc k + n < length ?sl'")
      case False
      with n show ?thesis by (simp add: backing_write_nth)
    next
      case True
      then have lt: "Suc k + n < length sl" by simp
      have "i \<noteq> Suc k + n" using ne i sl_nth [OF lt] by auto
      then have "?sl' ! (Suc k + n) = sl ! (Suc k + n)"
        using True by (simp add: nth_butlast)
      with True n sl_nth [OF lt] show ?thesis by (simp add: backing_write_nth)
    qed
    then show "drop (Suc k) (backing_write arr ?sl') ! n = drop (Suc k) arr ! n"
      using n by (simp add: backing_write_def)
  qed
qed

lemma backing_write_prefix:
  assumes "length sl' \<le> length arr"
  shows "take (length sl') (backing_write arr sl') = sl'"
  using assms by (intro nth_equalityI) (simp_all add: backing_write_def)

lemma length_deleteLimit_loop: "length (deleteLimit_loop i limit xs) \<le> length xs"
proof (induction i limit xs rule: deleteLimit_loop.induct)
  case (1 i limit xs)
  show ?case
  proof (cases "i < length xs")
    case False
    then show ?thesis by (subst deleteLimit_loop.simps) simp
  next
    case True
    show ?thesis
    proof (cases "xs ! i = limit")
      case eq: True
      with "1.IH"(1) [OF True eq] True show ?thesis
        by (subst deleteLimit_loop.simps) simp
    next
      case ne: False
      with "1.IH"(2) [OF True ne] True show ?thesis
        by (subst deleteLimit_loop.simps) simp
    qed
  qed
qed

lemma distinct_sub_mset:
  assumes "mset ys \<subseteq># mset xs" "distinct xs"
  shows "distinct ys"
proof -
  have le: "count (mset ys) a \<le> 1" for a
  proof -
    have "count (mset xs) a \<le> 1" using assms(2) by (simp add: distinct_count_atmost_1)
    with mset_subset_eq_count [OF assms(1), of a] show ?thesis by simp
  qed
  show ?thesis unfolding distinct_count_atmost_1
  proof (intro allI)
    fix a
    show "count (mset ys) a = (if a \<in> set ys then 1 else 0)"
      using le [of a] by (cases "a \<in> set ys") (auto simp: count_eq_zero_iff dest: le_Suc_eq [THEN iffD1])
  qed
qed

lemma PlaceMarketOrder_loop_walk:
  assumes "distinct (side_limits side s)"
    "take (length (side_limits side s)) arr = side_limits side s"
    "distinct (drop k arr)"
  shows "PlaceMarketOrder_loop side order k arr s = market_walk side order (drop k arr) s"
  using assms
proof (induction "length arr - k" arbitrary: k arr s)
  case 0
  then show ?case by (subst PlaceMarketOrder_loop.simps) simp
next
  case (Suc n)
  then have k: "k < length arr" by simp
  then have dr: "drop k arr = arr ! k # drop (Suc k) arr" by (simp add: Cons_nth_drop_Suc)
  define limit where "limit = arr ! k"
  obtain lm s1 where F: "Fill limit order s = (lm, s1)" by (cases "Fill limit order s")
  have sb: "same_book s s1" using Fill_same_book [of s limit order] F by simp
  have sl1: "side_limits side s1 = side_limits side s" by (rule side_limits_same_book [OF sb])
  define sl where "sl = side_limits side s"
  have len: "length sl \<le> length arr"
    using arg_cong [OF Suc.prems(2), of length] by (simp add: sl_def)
  have dtail: "distinct (drop (Suc k) arr)"
    using Suc.prems(3) dr by simp
  show ?case
  proof (cases "TotalVolume (limit_heap s1 limit) = 0")
    case False
    have IH: "PlaceMarketOrder_loop side order (Suc k) arr s1 =
                market_walk side order (drop (Suc k) arr) s1"
      using Suc.hyps(2) Suc.prems(1,2) dtail sl1 by (intro Suc.hyps(1)) simp_all
    show ?thesis
      using False k F IH
      by (subst PlaceMarketOrder_loop.simps) (simp add: dr limit_def [symmetric] Let_def)
  next
    case True
    define s2 where "s2 = deleteLimit side limit s1"
    define arr2 where "arr2 = backing_write arr (side_limits side s2)"
    have sl2: "side_limits side s2 = deleteLimit_loop 0 limit sl"
      by (simp add: s2_def deleteLimit_side sl1 sl_def)
    have d2: "distinct (side_limits side s2)"
    proof -
      have "mset (side_limits side s2) \<subseteq># mset sl"
        unfolding sl2 using Suc.prems(1) by (simp add: mset_deleteLimit_loop sl_def)
      then show ?thesis using Suc.prems(1) by (auto intro: distinct_sub_mset simp: sl_def)
    qed
    have len2: "length (side_limits side s2) \<le> length arr"
      using length_deleteLimit_loop [of 0 limit sl] len by (simp add: sl2)
    have pre2: "take (length (side_limits side s2)) arr2 = side_limits side s2"
      unfolding arr2_def by (rule backing_write_prefix [OF len2])
    have tail: "drop (Suc k) arr2 = drop (Suc k) arr"
      unfolding arr2_def sl2 limit_def
      using Suc.prems by (intro backing_write_tail [OF _ _ k]) (simp_all add: sl_def)
    have la: "length arr2 = length arr" by (simp add: arr2_def backing_write_def)
    have IH: "PlaceMarketOrder_loop side order (Suc k) arr2 s2 =
                market_walk side order (drop (Suc k) arr2) s2"
      using Suc.hyps(2) d2 pre2 dtail tail la by (intro Suc.hyps(1)) simp_all
    show ?thesis
      using True k F IH tail
      by (subst PlaceMarketOrder_loop.simps)
        (simp add: dr limit_def [symmetric] Let_def s2_def [symmetric] arr2_def [symmetric])
  qed
qed

lemma distinct_subset_mset:
  assumes "distinct ys" "set ys \<subseteq> set xs"
  shows "mset ys \<subseteq># mset xs"
proof (rule mset_subset_eqI)
  fix a
  show "count (mset ys) a \<le> count (mset xs) a"
  proof (cases "a \<in> set ys")
    case True
    then have "count (mset ys) a = 1" using assms(1) by (simp add: distinct_count_atmost_1)
    moreover have "a \<in> set xs" using True assms(2) by auto
    then have "count (mset xs) a \<ge> 1" by (simp add: Suc_le_eq)
    ultimately show ?thesis by simp
  next
    case False
    then have "count (mset ys) a = 0" by simp
    then show ?thesis by linarith
  qed
qed

lemma fifo_ok_sorted:
  "sorted (map (\<lambda>r. Timestamp (order_heap s r)) xs) \<Longrightarrow> fifo_ok s xs"
  unfolding fifo_ok_def
proof (intro allI impI)
  fix i j
  assume srt: "sorted (map (\<lambda>r. Timestamp (order_heap s r)) xs)"
    and ij: "i < j \<and> j < length xs \<and> xs ! j < xs ! i"
  then have "map (\<lambda>r. Timestamp (order_heap s r)) xs ! i \<le> map (\<lambda>r. Timestamp (order_heap s r)) xs ! j"
    by (intro sorted_nth_mono) simp_all
  with ij show "Timestamp (order_heap s (xs ! i)) \<le> Timestamp (order_heap s (xs ! j))" by simp
qed

lemma fifo_ok_cong:
  "(\<And>r. r \<in> set xs \<Longrightarrow> Timestamp (order_heap t r) = Timestamp (order_heap s r))
   \<Longrightarrow> fifo_ok t xs = fifo_ok s xs"
  by (simp add: fifo_ok_def)

lemma delete_all_sorted:
  "dels \<noteq> [] \<Longrightarrow>
   sorted (map (\<lambda>r. Timestamp (order_heap s r)) (Orders (limit_heap (delete_all l dels s) l)))"
proof (induction dels arbitrary: s)
  case Nil
  then show ?case by simp
next
  case (Cons d rs)
  have ts: "(\<lambda>r. Timestamp (order_heap (DeleteOrder l d s) r)) = (\<lambda>r. Timestamp (order_heap s r))"
    by (rule ext) (simp add: DeleteOrder_order_heap)
  show ?case
  proof (cases "rs = []")
    case True
    then show ?thesis by (simp add: DeleteOrder_limits sort_Orders_def)
  next
    case False
    from Cons.IH [OF False, of "DeleteOrder l d s"] show ?thesis by (simp add: ts)
  qed
qed

lemma Fill_effect:
  assumes nin: "order \<notin> set (Orders (limit_heap s l))"
    and d: "distinct (Orders (limit_heap s l))"
    and F: "Fill l order s = (ms, s')"
  shows "same_book s s'"
    and "\<And>k. k \<noteq> l \<Longrightarrow> limit_heap s' k = limit_heap s k"
    and "\<And>k. Price (limit_heap s' k) = Price (limit_heap s k)"
    and "mset (Orders (limit_heap s' l)) \<subseteq># mset (Orders (limit_heap s l))"
    and "\<And>r. r \<notin> set (Orders (limit_heap s l)) \<Longrightarrow> r \<noteq> order \<Longrightarrow> order_heap s' r = order_heap s r"
    and "\<And>r. ID (order_heap s' r) = ID (order_heap s r) \<and>
             Timestamp (order_heap s' r) = Timestamp (order_heap s r) \<and>
             OrderPlacement (order_heap s' r) = OrderPlacement (order_heap s r)"
    and "volume_invariant s l \<Longrightarrow> volume_invariant s' l"
    and "Size (order_heap s' order) \<noteq> 0 \<Longrightarrow> Orders (limit_heap s' l) = []"
    and "fifo_ok s (Orders (limit_heap s l)) \<Longrightarrow> fifo_ok s' (Orders (limit_heap s' l))"
proof -
  define xs where "xs = Orders (limit_heap s l)"
  define w where "w = walk_state l order xs s"
  define dels where "dels = walk_dels l order xs s"
  have s': "s' = delete_all l dels w"
    using F by (simp add: Fill_eq w_def dels_def xs_def)
  have nin': "order \<notin> set xs" and d': "distinct xs" using nin d by (simp_all add: xs_def)
  have wl: "Orders (limit_heap w k) = Orders (limit_heap s k)"
    "Price (limit_heap w k) = Price (limit_heap s k)"
    "k \<noteq> l \<Longrightarrow> limit_heap w k = limit_heap s k" for k
    using walk_state_limits [OF nin', of l s k] by (simp_all add: w_def)
  have sub: "mset dels \<subseteq># mset xs"
    unfolding dels_def by (intro distinct_subset_mset walk_dels_distinct walk_dels_subset d')
  show "same_book s s'"
    unfolding s' w_def by (rule same_book_trans [OF walk_state_same_book delete_all_same_book])
  show "limit_heap s' k = limit_heap s k" if "k \<noteq> l" for k
    using that delete_all_limits [of l dels w k] wl(3) [of k] by (simp add: s')
  show "Price (limit_heap s' k) = Price (limit_heap s k)" for k
    using delete_all_limits [of l dels w k] wl(2) [of k] by (simp add: s')
  have ms: "mset (Orders (limit_heap s' l)) = mset xs - mset dels"
    using delete_all_limits [of l dels w l] wl(1) [of l] by (simp add: s' xs_def)
  then show "mset (Orders (limit_heap s' l)) \<subseteq># mset (Orders (limit_heap s l))"
    by (simp add: xs_def)
  show "order_heap s' r = order_heap s r"
    if "r \<notin> set (Orders (limit_heap s l))" "r \<noteq> order" for r
  proof -
    have "r \<notin> set dels" using that(1) walk_dels_subset [of l order xs s]
      by (auto simp: dels_def xs_def)
    then have "order_heap s' r = order_heap w r"
      using delete_all_orders [of l dels w r] by (simp add: s')
    also have "\<dots> = order_heap s r"
      unfolding w_def using that nin' by (intro walk_state_other_orders) (simp_all add: xs_def)
    finally show ?thesis .
  qed
  show "ID (order_heap s' r) = ID (order_heap s r) \<and>
        Timestamp (order_heap s' r) = Timestamp (order_heap s r) \<and>
        OrderPlacement (order_heap s' r) = OrderPlacement (order_heap s r)" for r
    using delete_all_orders [of l dels w r] walk_state_order_fields [OF nin', of l s r]
    by (simp add: s' w_def)
  show "volume_invariant s' l" if "volume_invariant s l"
  proof -
    have "volume_invariant w l"
      using walk_state_volume_invariant [OF nin d that] by (simp add: w_def xs_def)
    moreover have "mset dels \<subseteq># mset (Orders (limit_heap w l))"
      using sub wl(1) [of l] by (simp add: xs_def)
    ultimately show ?thesis unfolding s' by (rule delete_all_volume_invariant)
  qed
  show "Orders (limit_heap s' l) = []" if "Size (order_heap s' order) \<noteq> 0"
  proof -
    have "Size (order_heap w order) \<noteq> 0"
      using that delete_all_orders [of l dels w order] by (simp add: s')
    then have "dels = xs" unfolding dels_def w_def by (intro walk_dels_all nin') 
    with ms show ?thesis by simp
  qed
  show "fifo_ok s' (Orders (limit_heap s' l))" if "fifo_ok s (Orders (limit_heap s l))"
  proof -
    have ts: "Timestamp (order_heap s' r) = Timestamp (order_heap s r)" for r
      using delete_all_orders [of l dels w r] walk_state_order_fields [OF nin', of l s r]
      by (simp add: s' w_def)
    have tsw: "(\<lambda>r. Timestamp (order_heap w r)) = (\<lambda>r. Timestamp (order_heap s r))"
      using walk_state_order_fields [OF nin', of l s] by (auto simp: w_def)
    have *: "fifo_ok s (Orders (limit_heap s' l))"
    proof (cases "dels = []")
      case True
      then show ?thesis using that wl(1) [of l] by (simp add: s')
    next
      case False
      from delete_all_sorted [OF False, of w l] show ?thesis
        unfolding s' by (intro fifo_ok_sorted) (simp add: tsw)
    qed
    have "fifo_ok s' (Orders (limit_heap s' l)) = fifo_ok s (Orders (limit_heap s' l))"
      by (rule fifo_ok_cong) (rule ts)
    with * show ?thesis by simp
  qed
qed

lemma heap_okD:
  assumes "heap_ok s" "l < limit_next s"
  shows "\<forall>r\<in>set (Orders (limit_heap s l)). r < order_next s"
    and "distinct (Orders (limit_heap s l))"
    and "fifo_ok s (Orders (limit_heap s l))"
    and "volume_invariant s l"
    and "\<And>k. k < limit_next s \<Longrightarrow> k \<noteq> l \<Longrightarrow>
           set (Orders (limit_heap s l)) \<inter> set (Orders (limit_heap s k)) = {}"
  using assms unfolding heap_ok_def by blast+

lemma volume_invariant_cong:
  assumes "limit_heap t l = limit_heap s l"
    "\<And>r. r \<in> set (Orders (limit_heap s l)) \<Longrightarrow> Size (order_heap t r) = Size (order_heap s r)"
  shows "volume_invariant t l = volume_invariant s l"
proof -
  have "order_sizes t (Orders (limit_heap s l)) = order_sizes s (Orders (limit_heap s l))"
    by (rule order_sizes_cong) (rule assms(2))
  then show ?thesis by (simp add: volume_invariant_def assms(1))
qed

lemma Fill_heap_ok:
  assumes ok: "heap_ok s" and l: "l < limit_next s" and nr: "not_resting s order"
    and F: "Fill l order s = (ms, s')"
  shows "heap_ok s'" and "not_resting s' order"
proof -
  have nin: "order \<notin> set (Orders (limit_heap s l))" using nr l by (simp add: not_resting_def)
  note H = heap_okD [OF ok]
  note E = Fill_effect [OF nin H(2) [OF l] F]
  have nx: "limit_next s' = limit_next s" "order_next s' = order_next s"
    using E(1) by (simp_all add: same_book_def)
  have sub: "set (Orders (limit_heap s' k)) \<subseteq> set (Orders (limit_heap s k))" for k
  proof (cases "k = l")
    case True
    then show ?thesis using set_mset_mono [OF E(4)] by simp
  next
    case False
    then show ?thesis by (simp add: E(2))
  qed
  show "not_resting s' order"
    using nr sub unfolding not_resting_def nx by blast
  show "heap_ok s'"
    unfolding heap_ok_def nx
  proof (intro allI impI conjI)
    fix k assume k: "k < limit_next s"
    show "\<forall>r\<in>set (Orders (limit_heap s' k)). r < order_next s"
      using H(1) [OF k] sub [of k] by blast
    show "distinct (Orders (limit_heap s' k))"
    proof (cases "k = l")
      case True
      then show ?thesis using E(4) H(2) [OF l] by (auto intro: distinct_sub_mset)
    next
      case False
      then show ?thesis using H(2) [OF k] by (simp add: E(2))
    qed
    show "fifo_ok s' (Orders (limit_heap s' k))"
    proof (cases "k = l")
      case True
      then show ?thesis using E(9) H(3) [OF l] by simp
    next
      case False
      have "fifo_ok s' (Orders (limit_heap s k)) = fifo_ok s (Orders (limit_heap s k))"
        by (rule fifo_ok_cong) (simp add: E(6))
      then show ?thesis using False H(3) [OF k] by (simp add: E(2))
    qed
    show "volume_invariant s' k"
    proof (cases "k = l")
      case True
      then show ?thesis using E(7) H(4) [OF l] by simp
    next
      case False
      have "volume_invariant s' k = volume_invariant s k"
      proof (rule volume_invariant_cong)
        show "limit_heap s' k = limit_heap s k" using False by (rule E(2))
        fix r assume r: "r \<in> set (Orders (limit_heap s k))"
        then have "r \<notin> set (Orders (limit_heap s l))" using H(5) [OF l k False] by blast
        moreover have "r \<noteq> order" using r nr k by (auto simp: not_resting_def)
        ultimately show "Size (order_heap s' r) = Size (order_heap s r)" by (simp add: E(5))
      qed
      then show ?thesis using H(4) [OF k] by simp
    qed
  next
    fix k j assume k: "k < limit_next s" and j: "j < limit_next s" and ne: "j \<noteq> k"
    show "set (Orders (limit_heap s' k)) \<inter> set (Orders (limit_heap s' j)) = {}"
      using H(5) [OF k j ne] sub [of k] sub [of j] by blast
  qed
qed

lemma DeleteOrder_heap_ok:
  assumes ok: "heap_ok s" and l: "l < limit_next s" and r: "r \<in> set (Orders (limit_heap s l))"
  shows "heap_ok (DeleteOrder l r s)"
proof -
  let ?t = "DeleteOrder l r s"
  note H = heap_okD [OF ok]
  have nx: "limit_next ?t = limit_next s" "order_next ?t = order_next s"
    using DeleteOrder_same_book [of s l r] by (simp_all add: same_book_def)
  have sz: "Size (order_heap ?t x) = Size (order_heap s x)"
    and ts: "Timestamp (order_heap ?t x) = Timestamp (order_heap s x)" for x
    by (simp_all add: DeleteOrder_order_heap)
  have sub: "set (Orders (limit_heap ?t k)) \<subseteq> set (Orders (limit_heap s k))" for k
  proof (cases "k = l")
    case True
    have "mset (Orders (limit_heap ?t l)) \<subseteq># mset (Orders (limit_heap s l))"
      by (simp add: DeleteOrder_mset)
    from set_mset_mono [OF this] True show ?thesis by simp
  next
    case False
    then show ?thesis by (simp add: DeleteOrder_limits(4))
  qed
  show ?thesis
    unfolding heap_ok_def nx
  proof (intro allI impI conjI)
    fix k assume k: "k < limit_next s"
    show "\<forall>x\<in>set (Orders (limit_heap ?t k)). x < order_next s"
      using H(1) [OF k] sub [of k] by blast
    show "distinct (Orders (limit_heap ?t k))"
    proof (cases "k = l")
      case True
      have "mset (Orders (limit_heap ?t l)) \<subseteq># mset (Orders (limit_heap s l))"
        by (simp add: DeleteOrder_mset)
      then show ?thesis using True H(2) [OF l] by (auto intro: distinct_sub_mset)
    next
      case False
      then show ?thesis using H(2) [OF k] by (simp add: DeleteOrder_limits(4))
    qed
    show "fifo_ok ?t (Orders (limit_heap ?t k))"
    proof (cases "k = l")
      case True
      have "fifo_ok s (Orders (limit_heap ?t l))"
        by (rule fifo_ok_sorted) (simp add: DeleteOrder_limits(1) sort_Orders_def)
      moreover have "fifo_ok ?t (Orders (limit_heap ?t l)) = fifo_ok s (Orders (limit_heap ?t l))"
        by (rule fifo_ok_cong) (rule ts)
      ultimately show ?thesis using True by simp
    next
      case False
      have "fifo_ok ?t (Orders (limit_heap s k)) = fifo_ok s (Orders (limit_heap s k))"
        by (rule fifo_ok_cong) (rule ts)
      then show ?thesis using False H(3) [OF k] by (simp add: DeleteOrder_limits(4))
    qed
    show "volume_invariant ?t k"
    proof (cases "k = l")
      case True
      then show ?thesis using DeleteOrder_volume_invariant [OF H(4) [OF l] r] by simp
    next
      case False
      have "volume_invariant ?t k = volume_invariant s k"
        by (rule volume_invariant_cong) (simp_all add: False DeleteOrder_limits(4) sz)
      then show ?thesis using H(4) [OF k] by simp
    qed
  next
    fix k j assume k: "k < limit_next s" and j: "j < limit_next s" and ne: "j \<noteq> k"
    show "set (Orders (limit_heap ?t k)) \<inter> set (Orders (limit_heap ?t j)) = {}"
      using H(5) [OF k j ne] sub [of k] sub [of j] by blast
  qed
qed

lemma ASK_neq_BID [simp]: "ASK_ORDER \<noteq> BID_ORDER" "BID_ORDER \<noteq> ASK_ORDER"
  by (simp_all add: ASK_ORDER_def BID_ORDER_def)

lemma side_ok_not_BID: "side \<noteq> BID_ORDER \<Longrightarrow> side_ok side s = side_ok ASK_ORDER s"
  by (simp add: side_ok_def side_struct_def side_limits_def side_map_def)

lemma well_formed_side:
  "well_formed s \<longleftrightarrow>
     heap_ok s \<and> side_ok side s \<and> side_ok (opposite side) s \<and>
     set (side_limits side s) \<inter> set (side_limits (opposite side) s) = {}"
proof (cases "side = BID_ORDER")
  case True
  then show ?thesis by (auto simp: well_formed_def opposite_def side_limits_def)
next
  case False
  then show ?thesis using side_ok_not_BID [OF False, of s]
    by (auto simp: well_formed_def opposite_def side_limits_def)
qed

lemma opposite_BID: "(opposite side = BID_ORDER) \<noteq> (side = BID_ORDER)"
  by (simp add: opposite_def)

lemma heap_ok_cong:
  assumes "order_heap t = order_heap s" "limit_heap t = limit_heap s"
    "order_next t = order_next s" "limit_next t = limit_next s"
  shows "heap_ok t = heap_ok s"
  by (simp add: heap_ok_def assms fifo_ok_def volume_invariant_def order_sizes_def)

lemma not_resting_cong:
  assumes "limit_heap t = limit_heap s" "limit_next t = limit_next s"
  shows "not_resting t order = not_resting s order"
  by (simp add: not_resting_def assms)

lemma side_structD:
  assumes "side_struct side s"
  shows "distinct (side_limits side s)"
    and "\<And>l. l \<in> set (side_limits side s) \<Longrightarrow> l < limit_next s"
    and "\<And>p l. side_map side s p = Some l \<longleftrightarrow>
           l \<in> set (side_limits side s) \<and> Price (limit_heap s l) = p"
  using assms unfolding side_struct_def by blast+

text \<open>Removing a Limit of the side keeps the side well formed.\<close>

lemma deleteLimit_side_struct:
  assumes so: "side_struct side s" and mem: "limit \<in> set (side_limits side s)"
  shows "side_struct side (deleteLimit side limit s)"
    and "set (side_limits side (deleteLimit side limit s)) = set (side_limits side s) - {limit}"
proof -
  let ?t = "deleteLimit side limit s"
  note S = side_structD [OF so]
  have ms: "mset (side_limits side ?t) = mset (side_limits side s) - {#limit#}"
    by (simp add: deleteLimit_side mset_deleteLimit_loop S(1))
  have d: "distinct (side_limits side ?t)"
    by (rule distinct_sub_mset [OF _ S(1)]) (simp add: ms)
  have "mset (side_limits side ?t) = mset (remove1 limit (side_limits side s))"
    by (simp add: ms)
  then have "set (side_limits side ?t) = set (remove1 limit (side_limits side s))"
    by (rule mset_eq_setD)
  then show st: "set (side_limits side ?t) = set (side_limits side s) - {limit}"
    using S(1) by simp
  show "side_struct side ?t"
    unfolding side_struct_def
  proof (intro conjI ballI allI)
    show "distinct (side_limits side ?t)" by (rule d)
  next
    fix l assume "l \<in> set (side_limits side ?t)"
    then have "l \<in> set (side_limits side s)" by (simp add: st)
    then show "l < limit_next ?t" using S(2) by simp
  next
    fix p l
    show "side_map side ?t p = Some l \<longleftrightarrow>
            l \<in> set (side_limits side ?t) \<and> Price (limit_heap ?t l) = p"
    proof (cases "p = Price (limit_heap s limit)")
      case True
      have "l \<in> set (side_limits side s) \<Longrightarrow> Price (limit_heap s l) = p \<Longrightarrow> l = limit"
        using S(3) [of p l] S(3) [of p limit] mem True by simp
      then show ?thesis using True by (auto simp: deleteLimit_side(2) st)
    next
      case False
      then show ?thesis using S(3) [of p l] by (auto simp: deleteLimit_side(2) st)
    qed
  qed
qed

lemma side_struct_cong:
  assumes "ob t = ob s" "limit_next t = limit_next s"
    "\<And>k. Price (limit_heap t k) = Price (limit_heap s k)"
  shows "side_struct side t = side_struct side s"
  by (simp add: side_struct_def side_limits_def side_map_def assms)

lemma deleteLimit_side_ok_other:
  assumes "side_ok side' s" "(side' = BID_ORDER) \<noteq> (side = BID_ORDER)"
  shows "side_ok side' (deleteLimit side limit s)"
  using assms(1) deleteLimit_other_side [OF assms(2), of limit s]
  by (simp add: side_ok_def side_struct_def)

text \<open>
  What \<open>PlaceMarketOrder\<close> and \<open>CancelOrderByID\<close> do after orders left a Limit of the
  side: the Limit is deleted when its volume is zero.
\<close>

lemma removal_step:
  assumes wfs: "well_formed s" and mem: "limit \<in> set (side_limits side s)"
    and ok1: "heap_ok s1" and ob1: "ob s1 = ob s" and ln1: "limit_next s1 = limit_next s"
    and lh: "\<And>k. k \<noteq> limit \<Longrightarrow> limit_heap s1 k = limit_heap s k"
    and pr: "\<And>k. Price (limit_heap s1 k) = Price (limit_heap s k)"
    and s2: "s2 = (if TotalVolume (limit_heap s1 limit) = 0 then deleteLimit side limit s1 else s1)"
  shows "well_formed s2"
    and "set (side_limits side s) - {limit} \<subseteq> set (side_limits side s2)"
    and "not_resting s2 order = not_resting s1 order"
proof -
  from wfs have so: "side_ok side s" and soo: "side_ok (opposite side) s"
    and dj: "set (side_limits side s) \<inter> set (side_limits (opposite side) s) = {}"
    unfolding well_formed_side [of s side] by simp_all
  note S = side_structD [OF so [unfolded side_ok_def, THEN conjunct1]]
  have l: "limit < limit_next s" by (rule S(2) [OF mem])
  have sl1: "side_limits sd s1 = side_limits sd s" for sd
    by (simp add: side_limits_def ob1)
  have st1: "side_struct sd s1 = side_struct sd s" for sd
    by (rule side_struct_cong [OF ob1 ln1 pr])
  have ne1: "Orders (limit_heap s1 k) \<noteq> []"
    if "k \<in> set (side_limits side s) \<union> set (side_limits (opposite side) s)" "k \<noteq> limit" for k
    using that so soo by (auto simp: side_ok_def lh)
  have nmem: "limit \<notin> set (side_limits (opposite side) s)" using mem dj by blast
  have soo1: "side_ok (opposite side) s1"
    unfolding side_ok_def st1 sl1 using soo ne1 nmem by (auto simp: side_ok_def)
  show "well_formed s2" "set (side_limits side s) - {limit} \<subseteq> set (side_limits side s2)"
    "not_resting s2 order = not_resting s1 order"
  proof (atomize (full), cases "TotalVolume (limit_heap s1 limit) = 0")
    case False
    then have e: "s2 = s1" by (simp add: s2)
    have "Orders (limit_heap s1 limit) \<noteq> []"
      using False heap_okD(4) [OF ok1, of limit] l ln1
      by (auto simp: volume_invariant_def)
    then have "side_ok side s1"
      unfolding side_ok_def st1 sl1 using so ne1 by (auto simp: side_ok_def)
    then have "well_formed s1" unfolding well_formed_side [of s1 side] using ok1 soo1 dj by (simp add: sl1)
    then show "well_formed s2 \<and> set (side_limits side s) - {limit} \<subseteq> set (side_limits side s2) \<and>
        not_resting s2 order = not_resting s1 order"
      by (auto simp: e sl1)
  next
    case True
    then have e: "s2 = deleteLimit side limit s1" by (simp add: s2)
    have ss1: "side_struct side s1" using so by (simp add: st1 side_ok_def)
    have mem1: "limit \<in> set (side_limits side s1)" using mem by (simp add: sl1)
    note D = deleteLimit_side_struct [OF ss1 mem1]
    have "heap_ok s2 = heap_ok s1" unfolding e by (rule heap_ok_cong) simp_all
    then have "heap_ok s2" using ok1 by simp
    moreover have "side_ok side s2"
      unfolding side_ok_def e using D ne1 by (auto simp: sl1)
    moreover have "side_ok (opposite side) s2"
      unfolding e by (rule deleteLimit_side_ok_other [OF soo1 opposite_BID])
    moreover have "set (side_limits side s2) \<inter> set (side_limits (opposite side) s2) = {}"
      unfolding e using D(2) dj deleteLimit_other_side [OF opposite_BID, of side limit s1]
      by (auto simp: sl1)
    ultimately have "well_formed s2" unfolding well_formed_side [of s2 side] by simp
    moreover have "not_resting s2 order = not_resting s1 order"
      unfolding e by (rule not_resting_cong) simp_all
    ultimately show "well_formed s2 \<and> set (side_limits side s) - {limit} \<subseteq> set (side_limits side s2) \<and>
        not_resting s2 order = not_resting s1 order"
      using D(2) by (auto simp: e sl1)
  qed
qed

lemma well_formed_allocated:
  "well_formed s \<Longrightarrow> limit \<in> set (side_limits side s) \<Longrightarrow> limit < limit_next s"
  unfolding well_formed_side [of s side] side_ok_def side_struct_def by blast

lemma market_step:
  assumes wfs: "well_formed s" and nr: "not_resting s order" and mem: "limit \<in> set (side_limits side s)"
    and F: "Fill limit order s = (lm, s1)"
    and s2: "s2 = (if TotalVolume (limit_heap s1 limit) = 0 then deleteLimit side limit s1 else s1)"
  shows "well_formed s2" and "not_resting s2 order"
    and "set (side_limits side s) - {limit} \<subseteq> set (side_limits side s2)"
proof -
  from wfs have ok: "heap_ok s" by (simp add: well_formed_def)
  have l: "limit < limit_next s" by (rule well_formed_allocated [OF wfs mem])
  note H1 = Fill_heap_ok [OF ok l nr F]
  have nin: "order \<notin> set (Orders (limit_heap s limit))" using nr l by (simp add: not_resting_def)
  note E = Fill_effect [OF nin heap_okD(2) [OF ok l] F]
  have sb: "ob s1 = ob s" "limit_next s1 = limit_next s"
    using E(1) by (simp_all add: same_book_def)
  note R = removal_step [OF wfs mem H1(1) sb E(2) E(3) s2]
  show "well_formed s2" by (rule R(1))
  show "set (side_limits side s) - {limit} \<subseteq> set (side_limits side s2)" by (rule R(2))
  show "not_resting s2 order" using R(3) [of order] H1(2) by simp
qed

lemma market_walk_well_formed:
  assumes "well_formed s" "not_resting s order" "distinct ls" "set ls \<subseteq> set (side_limits side s)"
  shows "well_formed (snd (market_walk side order ls s)) \<and>
         not_resting (snd (market_walk side order ls s)) order"
  using assms
proof (induction ls arbitrary: s)
  case Nil
  then show ?case by simp
next
  case (Cons limit rest)
  obtain lm s1 where F: "Fill limit order s = (lm, s1)" by (cases "Fill limit order s")
  define s2 where
    "s2 = (if TotalVolume (limit_heap s1 limit) = 0 then deleteLimit side limit s1 else s1)"
  from Cons.prems have mem: "limit \<in> set (side_limits side s)" by simp
  note M = market_step [OF Cons.prems(1,2) mem F s2_def]
  show ?case
  proof (cases "IsFilled (order_heap s2 order)")
    case True
    then show ?thesis using M F by (simp add: s2_def [symmetric] Let_def)
  next
    case False
    have "set rest \<subseteq> set (side_limits side s2)" using Cons.prems(3,4) M(3) by auto
    with Cons.IH [OF M(1,2)] Cons.prems(3)
    have "well_formed (snd (market_walk side order rest s2)) \<and>
          not_resting (snd (market_walk side order rest s2)) order" by simp
    then show ?thesis using False F
      by (simp add: s2_def [symmetric] Let_def case_prod_beta)
  qed
qed

lemma well_formed_perm:
  assumes "well_formed s"
    and "order_heap t = order_heap s" "limit_heap t = limit_heap s"
    and "order_next t = order_next s" "limit_next t = limit_next s"
    and "set (asks (ob t)) = set (asks (ob s))" "distinct (asks (ob t))"
    and "set (bids (ob t)) = set (bids (ob s))" "distinct (bids (ob t))"
    and "AskLimits (ob t) = AskLimits (ob s)" "BidLimits (ob t) = BidLimits (ob s)"
  shows "well_formed t"
proof -
  have "heap_ok t = heap_ok s" by (rule heap_ok_cong) (simp_all add: assms)
  then show ?thesis
    using assms
    by (simp add: well_formed_def side_ok_def side_struct_def side_limits_def side_map_def)
qed

lemma Asks_well_formed:
  assumes "well_formed s"
  shows "well_formed (snd (Asks s))" and "fst (Asks s) = asks (ob (snd (Asks s)))"
    and "not_resting (snd (Asks s)) order = not_resting s order"
    and "order_heap (snd (Asks s)) = order_heap s"
proof -
  have d: "distinct (asks (ob s))" "distinct (bids (ob s))"
    using assms by (simp_all add: well_formed_def side_ok_def side_struct_def side_limits_def)
  show "well_formed (snd (Asks s))"
    by (rule well_formed_perm [OF assms]) (simp_all add: Asks_def Let_def d)
  show "fst (Asks s) = asks (ob (snd (Asks s)))" by (simp add: Asks_def Let_def)
  show "not_resting (snd (Asks s)) order = not_resting s order"
    by (rule not_resting_cong) (simp_all add: Asks_def Let_def)
  show "order_heap (snd (Asks s)) = order_heap s" by (simp add: Asks_def Let_def)
qed

lemma Bids_well_formed:
  assumes "well_formed s"
  shows "well_formed (snd (Bids s))" and "fst (Bids s) = bids (ob (snd (Bids s)))"
    and "not_resting (snd (Bids s)) order = not_resting s order"
    and "order_heap (snd (Bids s)) = order_heap s"
proof -
  have d: "distinct (asks (ob s))" "distinct (bids (ob s))"
    using assms by (simp_all add: well_formed_def side_ok_def side_struct_def side_limits_def)
  show "well_formed (snd (Bids s))"
    by (rule well_formed_perm [OF assms]) (simp_all add: Bids_def Let_def d)
  show "fst (Bids s) = bids (ob (snd (Bids s)))" by (simp add: Bids_def Let_def)
  show "not_resting (snd (Bids s)) order = not_resting s order"
    by (rule not_resting_cong) (simp_all add: Bids_def Let_def)
  show "order_heap (snd (Bids s)) = order_heap s" by (simp add: Bids_def Let_def)
qed

text \<open>On a well-formed book the accepted market order is the walk over the sorted side.\<close>

lemma PlaceMarketOrder_accepted:
  assumes wfs: "well_formed s"
  shows "OrderPlacement (order_heap s order) = BID_ORDER \<Longrightarrow>
           \<not> Size (order_heap s order) > AskTotalVolume s \<Longrightarrow>
           PlaceMarketOrder order s =
             (Inr (fst (market_walk ASK_ORDER order (fst (Asks s)) (snd (Asks s)))),
              snd (market_walk ASK_ORDER order (fst (Asks s)) (snd (Asks s))))"
    and "OrderPlacement (order_heap s order) \<noteq> BID_ORDER \<Longrightarrow>
           \<not> Size (order_heap s order) > BidTotalVolume s \<Longrightarrow>
           PlaceMarketOrder order s =
             (Inr (fst (market_walk BID_ORDER order (fst (Bids s)) (snd (Bids s)))),
              snd (market_walk BID_ORDER order (fst (Bids s)) (snd (Bids s))))"
proof -
  note A = Asks_well_formed [OF wfs]
  have da: "distinct (fst (Asks s))"
    using A(1) unfolding A(2)
    by (simp add: well_formed_def side_ok_def side_struct_def side_limits_def)
  have "PlaceMarketOrder_loop ASK_ORDER order 0 (fst (Asks s)) (snd (Asks s)) =
          market_walk ASK_ORDER order (drop 0 (fst (Asks s))) (snd (Asks s))"
    using da by (intro PlaceMarketOrder_loop_walk) (simp_all add: side_limits_def A(2) [symmetric])
  then show "OrderPlacement (order_heap s order) = BID_ORDER \<Longrightarrow>
           \<not> Size (order_heap s order) > AskTotalVolume s \<Longrightarrow>
           PlaceMarketOrder order s =
             (Inr (fst (market_walk ASK_ORDER order (fst (Asks s)) (snd (Asks s)))),
              snd (market_walk ASK_ORDER order (fst (Asks s)) (snd (Asks s))))"
    by (simp add: PlaceMarketOrder_def case_prod_beta)
  note B = Bids_well_formed [OF wfs]
  have db: "distinct (fst (Bids s))"
    using B(1) unfolding B(2)
    by (simp add: well_formed_def side_ok_def side_struct_def side_limits_def)
  have "PlaceMarketOrder_loop BID_ORDER order 0 (fst (Bids s)) (snd (Bids s)) =
          market_walk BID_ORDER order (drop 0 (fst (Bids s))) (snd (Bids s))"
    using db by (intro PlaceMarketOrder_loop_walk) (simp_all add: side_limits_def B(2) [symmetric])
  then show "OrderPlacement (order_heap s order) \<noteq> BID_ORDER \<Longrightarrow>
           \<not> Size (order_heap s order) > BidTotalVolume s \<Longrightarrow>
           PlaceMarketOrder order s =
             (Inr (fst (market_walk BID_ORDER order (fst (Bids s)) (snd (Bids s)))),
              snd (market_walk BID_ORDER order (fst (Bids s)) (snd (Bids s))))"
    by (simp add: PlaceMarketOrder_def case_prod_beta)
qed

lemma PlaceMarketOrder_well_formed:
  assumes wfs: "well_formed s" and nr: "not_resting s order"
  shows "well_formed (snd (PlaceMarketOrder order s))"
proof (cases "OrderPlacement (order_heap s order) = BID_ORDER")
  case True
  show ?thesis
  proof (cases "Size (order_heap s order) > AskTotalVolume s")
    case rej: True
    then show ?thesis using True wfs by (simp add: PlaceMarketOrder_def)
  next
    case False
    note A = Asks_well_formed [OF wfs]
    have "well_formed (snd (market_walk ASK_ORDER order (fst (Asks s)) (snd (Asks s))))"
      using A(1) A(3) [of order] nr
      by (intro market_walk_well_formed [THEN conjunct1])
        (simp_all add: A(2) side_limits_def well_formed_def side_ok_def side_struct_def)
    then show ?thesis by (simp add: PlaceMarketOrder_accepted(1) [OF wfs True False])
  qed
next
  case nb: False
  show ?thesis
  proof (cases "Size (order_heap s order) > BidTotalVolume s")
    case rej: True
    then show ?thesis using nb wfs by (simp add: PlaceMarketOrder_def)
  next
    case False
    note B = Bids_well_formed [OF wfs]
    have "well_formed (snd (market_walk BID_ORDER order (fst (Bids s)) (snd (Bids s))))"
      using B(1) B(3) [of order] nr
      by (intro market_walk_well_formed [THEN conjunct1])
        (simp_all add: B(2) side_limits_def well_formed_def side_ok_def side_struct_def)
    then show ?thesis by (simp add: PlaceMarketOrder_accepted(2) [OF wfs nb False])
  qed
qed

lemma newest_not_resting: "newest s order \<Longrightarrow> not_resting s order"
  unfolding newest_def not_resting_def by blast

lemma well_formed_imp_but: "well_formed s \<Longrightarrow> well_formed_but limit s"
  by (auto simp: well_formed_def well_formed_but_def side_ok_def side_limits_def)

lemma well_formed_but_nonempty:
  "well_formed_but limit s \<Longrightarrow> Orders (limit_heap s limit) \<noteq> [] \<Longrightarrow> well_formed s"
  unfolding well_formed_def well_formed_but_def side_ok_def side_limits_def
  by (auto simp: side_limits_def)

lemma NewOrder_effect:
  assumes N: "NewOrder placement sz now s = (order, s1)"
  shows "order = order_next s" and "order_next s1 = Suc (order_next s)"
    and "limit_heap s1 = limit_heap s" and "limit_next s1 = limit_next s" and "ob s1 = ob s"
    and "OrderIndex s1 = OrderIndex s"
    and "order_heap s1 = (order_heap s)(order_next s :=
           \<lparr>ID = orderIdSequence s + 1, OrderPlacement = placement, Size = sz,
            Limit = None, Timestamp = now\<rparr>)"
  using N by (auto simp: NewOrder_def Let_def)

lemma NewOrder_well_formed:
  assumes wfs: "well_formed s" and N: "NewOrder placement sz now s = (order, s1)"
  shows "well_formed s1" and "newest s1 order"
proof -
  note E = NewOrder_effect [OF N]
  from wfs have ok: "heap_ok s" by (simp add: well_formed_def)
  note H = heap_okD [OF ok]
  have old: "order_heap s1 r = order_heap s r"
    if "l < limit_next s" "r \<in> set (Orders (limit_heap s l))" for l r
    using H(1) [OF that(1)] that(2) by (auto simp: E(7))
  have "heap_ok s1"
    unfolding heap_ok_def E(2,3,4)
  proof (intro allI impI conjI)
    fix l assume l: "l < limit_next s"
    show "\<forall>r\<in>set (Orders (limit_heap s l)). r < Suc (order_next s)"
      using H(1) [OF l] by auto
    show "distinct (Orders (limit_heap s l))" by (rule H(2) [OF l])
    have "fifo_ok s1 (Orders (limit_heap s l)) = fifo_ok s (Orders (limit_heap s l))"
      by (rule fifo_ok_cong) (simp add: old [OF l])
    then show "fifo_ok s1 (Orders (limit_heap s l))" using H(3) [OF l] by simp
    have "volume_invariant s1 l = volume_invariant s l"
      by (rule volume_invariant_cong) (simp_all add: E(3) old [OF l])
    then show "volume_invariant s1 l" using H(4) [OF l] by simp
  next
    fix l k assume "l < limit_next s" "k < limit_next s" "k \<noteq> l"
    then show "set (Orders (limit_heap s l)) \<inter> set (Orders (limit_heap s k)) = {}"
      by (rule H(5))
  qed
  then show "well_formed s1"
    using wfs
    by (simp add: well_formed_def side_ok_def side_struct_def side_limits_def side_map_def E)
  show "newest s1 order"
    unfolding newest_def E(2,3,4) using H(1) by (auto simp: E(1))
qed

lemma AddOrder_effect:
  "order_heap (AddOrder l r s) = (order_heap s)(r := (order_heap s r)\<lparr>Limit := Some l\<rparr>)"
  "limit_heap (AddOrder l r s) = (limit_heap s)(l := (limit_heap s l)
     \<lparr>Orders := Orders (limit_heap s l) @ [r],
      TotalVolume := TotalVolume (limit_heap s l) + Size (order_heap s r)\<rparr>)"
  "ob (AddOrder l r s) = ob s" "order_next (AddOrder l r s) = order_next s"
  "limit_next (AddOrder l r s) = limit_next s" "OrderIndex (AddOrder l r s) = OrderIndex s"
  "orderIdSequence (AddOrder l r s) = orderIdSequence s"
  by (simp_all add: AddOrder_def Let_def)

lemma fifo_ok_snoc:
  assumes "fifo_ok s xs" "\<forall>x\<in>set xs. x < r"
  shows "fifo_ok s (xs @ [r])"
  unfolding fifo_ok_def
proof (intro allI impI)
  fix i j assume a: "i < j \<and> j < length (xs @ [r]) \<and> (xs @ [r]) ! j < (xs @ [r]) ! i"
  show "Timestamp (order_heap s ((xs @ [r]) ! i)) \<le> Timestamp (order_heap s ((xs @ [r]) ! j))"
  proof (cases "j < length xs")
    case True
    with a have i: "i < length xs" by simp
    from a True i have "i < j \<and> j < length xs \<and> xs ! j < xs ! i" by (simp add: nth_append)
    with assms(1) have "Timestamp (order_heap s (xs ! i)) \<le> Timestamp (order_heap s (xs ! j))"
      unfolding fifo_ok_def by blast
    with True i show ?thesis by (simp add: nth_append)
  next
    case False
    with a have j: "j = length xs" and i: "i < length xs" by simp_all
    then have "xs ! i < r" using assms(2) by simp
    with a j i show ?thesis by (simp add: nth_append)
  qed
qed

lemma AddOrder_heap_ok:
  assumes ok: "heap_ok s" and l: "l < limit_next s" and nw: "newest s r"
  shows "heap_ok (AddOrder l r s)"
proof -
  let ?t = "AddOrder l r s"
  note H = heap_okD [OF ok]
  note E = AddOrder_effect [of l r s]
  have lt: "\<forall>x\<in>set (Orders (limit_heap s k)). x < r" if "k < limit_next s" for k
    using nw that by (simp add: newest_def)
  have r: "r < order_next s" using nw by (simp add: newest_def)
  have sz: "Size (order_heap ?t x) = Size (order_heap s x)"
    and ts: "Timestamp (order_heap ?t x) = Timestamp (order_heap s x)" for x
    by (simp_all add: E(1))
  have os: "order_sizes ?t xs = order_sizes s xs" for xs
    by (rule order_sizes_cong) (rule sz)
  show ?thesis
    unfolding heap_ok_def E(4,5)
  proof (intro allI impI conjI)
    fix k assume k: "k < limit_next s"
    show "\<forall>x\<in>set (Orders (limit_heap ?t k)). x < order_next s"
      using H(1) [OF k] r by (auto simp: E(2))
    show "distinct (Orders (limit_heap ?t k))"
      using H(2) [OF k] lt [OF k] by (auto simp: E(2))
    have "fifo_ok s (Orders (limit_heap ?t k))"
      using H(3) [OF k] fifo_ok_snoc [OF H(3) [OF k] lt [OF k]] by (auto simp: E(2))
    moreover have "fifo_ok ?t (Orders (limit_heap ?t k)) = fifo_ok s (Orders (limit_heap ?t k))"
      by (rule fifo_ok_cong) (rule ts)
    ultimately show "fifo_ok ?t (Orders (limit_heap ?t k))" by simp
    show "volume_invariant ?t k"
      using H(4) [OF k] by (auto simp: volume_invariant_def order_sizes_def E(2) sz)
  next
    fix k j assume k: "k < limit_next s" and j: "j < limit_next s" and ne: "j \<noteq> k"
    show "set (Orders (limit_heap ?t k)) \<inter> set (Orders (limit_heap ?t j)) = {}"
      using ne H(5) [OF k j ne] lt [OF k] lt [OF j] by (auto simp: E(2))
  qed
qed

lemma AddOrder_well_formed:
  assumes wb: "well_formed_but limit s"
    and mem: "limit \<in> set (asks (ob s)) \<union> set (bids (ob s))" and nw: "newest s order"
  shows "well_formed (AddOrder limit order s)"
proof -
  let ?t = "AddOrder limit order s"
  note E = AddOrder_effect [of limit order s]
  from wb have ok: "heap_ok s" and sb: "side_struct BID_ORDER s" and sa: "side_struct ASK_ORDER s"
    and dj: "set (asks (ob s)) \<inter> set (bids (ob s)) = {}"
    and ne: "\<forall>l\<in>set (asks (ob s)) \<union> set (bids (ob s)). l \<noteq> limit \<longrightarrow> Orders (limit_heap s l) \<noteq> []"
    by (simp_all add: well_formed_but_def)
  have l: "limit < limit_next s"
    using mem side_structD(2) [OF sb] side_structD(2) [OF sa] by (auto simp: side_limits_def)
  have pr: "Price (limit_heap ?t k) = Price (limit_heap s k)" for k by (simp add: E(2))
  have "well_formed_but limit ?t"
    unfolding well_formed_but_def
    using AddOrder_heap_ok [OF ok l nw] sb sa dj ne
      side_struct_cong [OF E(3) E(5) pr, of BID_ORDER] side_struct_cong [OF E(3) E(5) pr, of ASK_ORDER]
    by (simp add: E(2,3))
  moreover have "Orders (limit_heap ?t limit) \<noteq> []" by (simp add: E(2))
  ultimately show ?thesis by (rule well_formed_but_nonempty)
qed

lemma add_limit_effect:
  "order_heap (add_limit side price s) = order_heap s"
  "order_next (add_limit side price s) = order_next s"
  "limit_next (add_limit side price s) = Suc (limit_next s)"
  "limit_heap (add_limit side price s) =
     (limit_heap s)(limit_next s := \<lparr>Price = price, Orders = [], TotalVolume = 0\<rparr>)"
  "side_limits side (add_limit side price s) = side_limits side s @ [limit_next s]"
  "side_map side (add_limit side price s) = (side_map side s)(price \<mapsto> limit_next s)"
  "(side' = BID_ORDER) \<noteq> (side = BID_ORDER) \<Longrightarrow>
     side_limits side' (add_limit side price s) = side_limits side' s"
  "(side' = BID_ORDER) \<noteq> (side = BID_ORDER) \<Longrightarrow>
     side_map side' (add_limit side price s) = side_map side' s"
  "OrderIndex (add_limit side price s) = OrderIndex s"
  by (auto simp: add_limit_def NewLimit_def Let_def side_limits_def side_map_def)

lemma add_limit_heap_ok:
  assumes ok: "heap_ok s"
  shows "heap_ok (add_limit side price s)"
proof -
  let ?t = "add_limit side price s"
  note H = heap_okD [OF ok]
  note E = add_limit_effect [where side=side and price=price and s=s]
  have fo: "fifo_ok ?t xs = fifo_ok s xs" for xs
    by (rule fifo_ok_cong) (simp add: E(1))
  show ?thesis
    unfolding heap_ok_def E(2,3)
  proof (intro allI impI conjI)
    fix k assume k: "k < Suc (limit_next s)"
    show "\<forall>x\<in>set (Orders (limit_heap ?t k)). x < order_next s"
      using k H(1) [of k] by (auto simp: E(4))
    show "distinct (Orders (limit_heap ?t k))"
      using k H(2) [of k] by (auto simp: E(4))
    show "fifo_ok ?t (Orders (limit_heap ?t k))"
      unfolding fo using k H(3) [of k] by (auto simp: E(4) fifo_ok_def)
    show "volume_invariant ?t k"
      using k H(4) [of k] by (auto simp: E(1,4) volume_invariant_def order_sizes_def)
  next
    fix k j assume k: "k < Suc (limit_next s)" and j: "j < Suc (limit_next s)" and ne: "j \<noteq> k"
    show "set (Orders (limit_heap ?t k)) \<inter> set (Orders (limit_heap ?t j)) = {}"
      using k j ne H(5) [of k j] by (auto simp: E(4))
  qed
qed

lemma add_limit_side_struct:
  assumes ss: "side_struct side s" and none: "side_map side s price = None"
  shows "side_struct side (add_limit side price s)"
proof -
  let ?t = "add_limit side price s"
  note S = side_structD [OF ss]
  note E = add_limit_effect [where side=side and price=price and s=s]
  have fresh: "limit_next s \<notin> set (side_limits side s)" using S(2) by auto
  have noprice: "Price (limit_heap s l) \<noteq> price" if "l \<in> set (side_limits side s)" for l
    using S(3) [of price l] that none by auto
  show ?thesis
    unfolding side_struct_def E(3,5,6)
  proof (intro conjI ballI allI)
    show "distinct (side_limits side s @ [limit_next s])" using S(1) fresh by simp
  next
    fix l assume "l \<in> set (side_limits side s @ [limit_next s])"
    then show "l < Suc (limit_next s)" using S(2) [of l] by auto
  next
    fix p l
    show "((side_map side s)(price \<mapsto> limit_next s)) p = Some l \<longleftrightarrow>
            l \<in> set (side_limits side s @ [limit_next s]) \<and> Price (limit_heap ?t l) = p"
      using S(3) [of p l] fresh noprice [of l] by (auto simp: E(4))
  qed
qed

lemma add_limit_side_struct_other:
  assumes ss: "side_struct side' s" and ne: "(side' = BID_ORDER) \<noteq> (side = BID_ORDER)"
  shows "side_struct side' (add_limit side price s)"
proof -
  let ?t = "add_limit side price s"
  note S = side_structD [OF ss]
  note E = add_limit_effect [where side=side and price=price and s=s]
  have fresh: "limit_next s \<notin> set (side_limits side' s)" using S(2) by auto
  show ?thesis
    unfolding side_struct_def E(3) E(7) [OF ne] E(8) [OF ne]
  proof (intro conjI ballI allI)
    show "distinct (side_limits side' s)" by (rule S(1))
  next
    fix l assume "l \<in> set (side_limits side' s)"
    then show "l < Suc (limit_next s)" using S(2) [of l] by auto
  next
    fix p l
    show "side_map side' s p = Some l \<longleftrightarrow>
            l \<in> set (side_limits side' s) \<and> Price (limit_heap ?t l) = p"
      using S(3) [of p l] fresh by (auto simp: E(4))
  qed
qed

lemma well_formed_but_side:
  "well_formed_but limit s \<longleftrightarrow>
     heap_ok s \<and> side_struct side s \<and> side_struct (opposite side) s \<and>
     set (side_limits side s) \<inter> set (side_limits (opposite side) s) = {} \<and>
     (\<forall>l\<in>set (side_limits side s) \<union> set (side_limits (opposite side) s).
        l \<noteq> limit \<longrightarrow> Orders (limit_heap s l) \<noteq> [])"
proof (cases "side = BID_ORDER")
  case True
  then show ?thesis by (auto simp: well_formed_but_def opposite_def side_limits_def)
next
  case False
  then have "side_struct side s = side_struct ASK_ORDER s"
    by (simp add: side_struct_def side_limits_def side_map_def)
  with False show ?thesis by (auto simp: well_formed_but_def opposite_def side_limits_def)
qed

lemma add_limit_well_formed_but:
  assumes wfs: "well_formed s" and none: "side_map side s price = None"
  shows "well_formed_but (limit_next s) (add_limit side price s)"
    and "limit_next s \<in> set (side_limits side (add_limit side price s))"
    and "newest s order \<Longrightarrow> newest (add_limit side price s) order"
proof -
  let ?t = "add_limit side price s"
  note E = add_limit_effect [where side=side and price=price and s=s]
  from well_formed_imp_but [OF wfs, of "limit_next s"]
  have ok: "heap_ok s" and ss: "side_struct side s" and sso: "side_struct (opposite side) s"
    and dj: "set (side_limits side s) \<inter> set (side_limits (opposite side) s) = {}"
    and ne: "\<forall>l\<in>set (side_limits side s) \<union> set (side_limits (opposite side) s).
        l \<noteq> limit_next s \<longrightarrow> Orders (limit_heap s l) \<noteq> []"
    unfolding well_formed_but_side [of _ s side] by simp_all
  have fresh: "limit_next s \<notin> set (side_limits (opposite side) s)"
    using side_structD(2) [OF sso] by auto
  show "well_formed_but (limit_next s) ?t"
    unfolding well_formed_but_side [of _ ?t side]
    using add_limit_heap_ok [OF ok] add_limit_side_struct [OF ss none]
      add_limit_side_struct_other [OF sso opposite_BID] dj ne fresh
    by (auto simp: E(5) E(7) [OF opposite_BID] E(4))
  show "limit_next s \<in> set (side_limits side ?t)" by (simp add: E(5))
  show "newest ?t order" if "newest s order"
    using that by (auto simp: newest_def E(2,3,4) less_Suc_eq)
qed

lemma well_formed_OrderIndex [simp]: "well_formed (s\<lparr>OrderIndex := x\<rparr>) = well_formed s"
proof -
  have "heap_ok (s\<lparr>OrderIndex := x\<rparr>) = heap_ok s" by (rule heap_ok_cong) simp_all
  then show ?thesis
    by (simp add: well_formed_def side_ok_def side_struct_def side_limits_def side_map_def)
qed

lemma PlaceLimitOrder_state:
  assumes "OrderPlacement (order_heap s order) = side" "side = BID_ORDER \<or> side = ASK_ORDER"
  shows "snd (PlaceLimitOrder price order s) =
           (let limit = (case side_map side s price of Some l \<Rightarrow> l | None \<Rightarrow> limit_next s);
                s1 = (case side_map side s price of Some l \<Rightarrow> s | None \<Rightarrow> add_limit side price s);
                s2 = AddOrder limit order s1
            in s2\<lparr>OrderIndex := (OrderIndex s2)
                  (ID (order_heap s2 order) \<mapsto>
                     \<lparr>Order = order, OrderMetadata.Market = Market (ob s2)\<rparr>)\<rparr>)"
    and "fst (PlaceLimitOrder price order s) = None"
  using assms
  by (auto simp: PlaceLimitOrder_def Let_def side_map_def add_limit_def NewLimit_def
      split: option.splits)

lemma PlaceLimitOrder_invalid:
  assumes "OrderPlacement (order_heap s order) \<noteq> BID_ORDER"
    "OrderPlacement (order_heap s order) \<noteq> ASK_ORDER"
  shows "PlaceLimitOrder price order s = (Some InvalidOrderPlacement, s)"
  using assms by (simp add: PlaceLimitOrder_def Let_def)

lemma PlaceLimitOrder_well_formed:
  assumes wfs: "well_formed s" and nw: "newest s order"
  shows "well_formed (snd (PlaceLimitOrder price order s))"
proof (cases "OrderPlacement (order_heap s order) = BID_ORDER \<or>
              OrderPlacement (order_heap s order) = ASK_ORDER")
  case False
  then show ?thesis using wfs by (simp add: PlaceLimitOrder_invalid)
next
  case True
  define side where "side = OrderPlacement (order_heap s order)"
  have sd: "OrderPlacement (order_heap s order) = side" "side = BID_ORDER \<or> side = ASK_ORDER"
    using True by (simp_all add: side_def)
  show ?thesis
  proof (cases "side_map side s price")
    case None
    note A = add_limit_well_formed_but [OF wfs None]
    have "limit_next s \<in> set (asks (ob (add_limit side price s))) \<union>
            set (bids (ob (add_limit side price s)))"
      using A(2) by (auto simp: side_limits_def split: if_splits)
    from AddOrder_well_formed [OF A(1) this A(3) [OF nw]]
    show ?thesis by (simp add: PlaceLimitOrder_state(1) [OF sd] None Let_def)
  next
    case (Some l)
    from wfs have "side_struct side s"
      unfolding well_formed_side [of s side] by (simp add: side_ok_def)
    from side_structD(3) [OF this, of price l] Some
    have "l \<in> set (side_limits side s)" by simp
    then have "l \<in> set (asks (ob s)) \<union> set (bids (ob s))"
      by (auto simp: side_limits_def split: if_splits)
    from AddOrder_well_formed [OF well_formed_imp_but [OF wfs] this nw]
    show ?thesis by (simp add: PlaceLimitOrder_state(1) [OF sd] Some Let_def)
  qed
qed

lemma find_order_Some:
  "find_order orderId rs s = Some r \<Longrightarrow> r \<in> set rs \<and> ID (order_heap s r) = orderId"
  by (induction rs) (auto split: if_splits)

lemma find_limit_order_Some:
  "find_limit_order orderId ls s = Some (limit, r) \<Longrightarrow>
     limit \<in> set ls \<and> r \<in> set (Orders (limit_heap s limit)) \<and> ID (order_heap s r) = orderId"
  by (induction ls) (auto split: option.splits dest: find_order_Some)

lemma heap_ok_OrderIndex [simp]: "heap_ok (s\<lparr>OrderIndex := x\<rparr>) = heap_ok s"
  by (rule heap_ok_cong) simp_all

lemma CancelOrderByID_well_formed:
  assumes wfs: "well_formed s"
  shows "well_formed (snd (CancelOrderByID orderId side s))"
proof (cases "find_limit_order orderId (side_limits side s) s")
  case None
  then show ?thesis using wfs by (simp add: CancelOrderByID_def)
next
  case (Some a)
  obtain limit r where a: "a = (limit, r)" by (cases a)
  from find_limit_order_Some [OF Some [unfolded a]]
  have mem: "limit \<in> set (side_limits side s)" and r: "r \<in> set (Orders (limit_heap s limit))"
    by simp_all
  from wfs have ok: "heap_ok s" by (simp add: well_formed_def)
  have l: "limit < limit_next s" by (rule well_formed_allocated [OF wfs mem])
  define s1 where "s1 = DeleteOrder limit r s"
  define s2 where "s2 = s1\<lparr>OrderIndex := (OrderIndex s1)(ID (order_heap s1 r) := None)\<rparr>"
  define s3 where
    "s3 = (if TotalVolume (limit_heap s2 limit) = 0 then deleteLimit side limit s2 else s2)"
  have sb: "same_book s s1" unfolding s1_def by (rule DeleteOrder_same_book)
  have ok2: "heap_ok s2" unfolding s2_def s1_def using DeleteOrder_heap_ok [OF ok l r] by simp
  have "well_formed s3"
  proof (rule removal_step(1) [OF wfs mem ok2 _ _ _ _ s3_def])
    show "ob s2 = ob s" "limit_next s2 = limit_next s"
      using sb by (simp_all add: s2_def same_book_def)
    show "limit_heap s2 k = limit_heap s k" if "k \<noteq> limit" for k
      using that by (simp add: s2_def s1_def DeleteOrder_limits(4))
    show "Price (limit_heap s2 k) = Price (limit_heap s k)" for k
      by (simp add: s2_def s1_def DeleteOrder_limits(3))
  qed
  moreover have "snd (CancelOrderByID orderId side s) = s3"
    by (simp add: CancelOrderByID_def Some a Let_def s3_def s2_def s1_def)
  ultimately show ?thesis by simp
qed

lemma exec_well_formed:
  assumes "well_formed s"
  shows "well_formed (exec c s)"
proof (cases c)
  case (LimitOrderCmd placement sz price now)
  obtain order s1 where N: "NewOrder placement sz now s = (order, s1)"
    by (cases "NewOrder placement sz now s")
  from NewOrder_well_formed [OF assms N] PlaceLimitOrder_well_formed [of s1 order price]
  show ?thesis by (simp add: LimitOrderCmd N)
next
  case (MarketOrderCmd placement sz now)
  obtain order s1 where N: "NewOrder placement sz now s = (order, s1)"
    by (cases "NewOrder placement sz now s")
  from NewOrder_well_formed [OF assms N] PlaceMarketOrder_well_formed [of s1 order]
  show ?thesis by (simp add: MarketOrderCmd N newest_not_resting)
next
  case (CancelCmd orderId placement)
  then show ?thesis using CancelOrderByID_well_formed [OF assms] by simp
qed

lemma run_well_formed: "well_formed s \<Longrightarrow> well_formed (run cmds s)"
  unfolding run_def by (induction cmds arbitrary: s) (simp_all add: exec_well_formed)

lemma init_well_formed: "well_formed (init_state market)"
  by (simp add: well_formed_def heap_ok_def side_ok_def side_struct_def side_limits_def
      side_map_def init_state_def NewOrderBook_def)

lemma reachable_well_formed: "well_formed (run cmds (init_state market))"
  by (rule run_well_formed [OF init_well_formed])

section \<open>Rejection of a market order\<close>

text \<open>
  C1. A market order whose size exceeds the total volume of the opposing side (the asks
  for a bid, the bids otherwise) is answered with the not-enough-volume error, no match
  list is returned, and the state after the call is the state before it: both stores, the
  book with its side slices and price maps, and the index are the same, hence so are
  \<open>AskTotalVolume\<close>, \<open>BidTotalVolume\<close> and every Limit's orders and volume.
\<close>

theorem PlaceMarketOrder_insufficient_liquidity:
  assumes "Size (order_heap s order) >
             (if OrderPlacement (order_heap s order) = BID_ORDER
              then AskTotalVolume s else BidTotalVolume s)"
  shows "PlaceMarketOrder order s =
           (Inl (if OrderPlacement (order_heap s order) = BID_ORDER
                 then NotEnoughAskVolume (AskTotalVolume s) (Size (order_heap s order))
                 else NotEnoughBidVolume (Size (order_heap s order)) (BidTotalVolume s)), s)"
proof (cases "OrderPlacement (order_heap s order) = BID_ORDER")
  case True
  with assms have "Size (order_heap s order) > AskTotalVolume s" by simp
  with True show ?thesis by (simp add: PlaceMarketOrder_def)
next
  case False
  with assms have "Size (order_heap s order) > BidTotalVolume s" by simp
  with False show ?thesis by (simp add: PlaceMarketOrder_def)
qed

theorem PlaceMarketOrder_insufficient_liquidity_witness:
  "PlaceMarketOrder 2 (snd (NewOrder BID_ORDER 500 3 book_two_asks)) =
     (Inl (NotEnoughAskVolume 200 500), snd (NewOrder BID_ORDER 500 3 book_two_asks))"
proof -
  let ?s = "snd (NewOrder BID_ORDER 500 3 book_two_asks)"
  have h: "Size (order_heap ?s 2) >
             (if OrderPlacement (order_heap ?s 2) = BID_ORDER
              then AskTotalVolume ?s else BidTotalVolume ?s)"
    by (simp add: book_two_asks_def engine_defs)
  have "OrderPlacement (order_heap ?s 2) = BID_ORDER" "AskTotalVolume ?s = 200"
    "Size (order_heap ?s 2) = 500"
    by (simp_all add: book_two_asks_def engine_defs)
  with PlaceMarketOrder_insufficient_liquidity [OF h] show ?thesis by simp
qed

lemma DeleteOrder_loop_absent:
  "r \<notin> set xs \<Longrightarrow> DeleteOrder_loop i r xs = xs"
proof (induction i r xs rule: DeleteOrder_loop.induct)
  case (1 i r xs)
  show ?case
  proof (cases "i < length xs")
    case True
    with "1.prems" have "xs ! i \<noteq> r" by (metis nth_mem)
    with True "1.IH" "1.prems" show ?thesis
      by (subst DeleteOrder_loop.simps) simp
  next
    case False
    then show ?thesis by (subst DeleteOrder_loop.simps) simp
  qed
qed

lemma if_same_arg: "(if x = y then f y else f x) = f x"
  by simp

lemma Timestamp_upd_Limit:
  "(\<lambda>x. Timestamp (if x = r then (order_heap s r)\<lparr>Limit := v\<rparr> else order_heap s x)) =
   (\<lambda>x. Timestamp (order_heap s x))"
  by (rule ext) simp

section \<open>Removing an order that is not in the Limit\<close>

text \<open>
  Counterexample to C6 as stated: in the book of the placement test, order 1 (size 2000)
  rests in Limit 1, not in Limit 0 (volume 10); \<open>DeleteOrder\<close> of order 1 on Limit 0
  leaves Limit 0 with volume \<open>10 - 2000\<close>.
\<close>

theorem DeleteOrder_absent_counterexample:
  "1 \<notin> set (Orders (limit_heap book_two_levels 0)) \<and>
   TotalVolume (limit_heap book_two_levels 0) = 10 \<and>
   TotalVolume (limit_heap (DeleteOrder 0 1 book_two_levels) 0) = - 1990"
  by (simp add: book_two_levels_def engine_defs DeleteOrder_loop.simps)

text \<open>
  C6 (as amended). When the order is not in the Limit's sequence, \<open>DeleteOrder\<close> removes
  nothing, but the statements after its loop still run: the sequence is re-sorted by
  timestamp, the order's residual size is subtracted from \<open>TotalVolume\<close>, and the order's
  back-reference is cleared.
\<close>

theorem DeleteOrder_absent:
  assumes "r \<notin> set (Orders (limit_heap s l))"
  shows "Orders (limit_heap (DeleteOrder l r s) l) = sort_Orders s (Orders (limit_heap s l)) \<and>
         TotalVolume (limit_heap (DeleteOrder l r s) l) =
           TotalVolume (limit_heap s l) - Size (order_heap s r) \<and>
         Limit (order_heap (DeleteOrder l r s) r) = None"
  using assms
  by (simp add: DeleteOrder_def upd_limit_def upd_order_def sort_Orders_def Let_def
      DeleteOrder_loop_absent Timestamp_upd_Limit)

theorem DeleteOrder_absent_witness:
  "Orders (limit_heap (DeleteOrder 0 1 book_two_levels) 0) = [0] \<and>
   TotalVolume (limit_heap (DeleteOrder 0 1 book_two_levels) 0) = 10 - 2000"
proof -
  have h: "1 \<notin> set (Orders (limit_heap book_two_levels 0))"
    by (simp add: book_two_levels_def engine_defs)
  have "sort_Orders book_two_levels (Orders (limit_heap book_two_levels 0)) = [0]"
    "TotalVolume (limit_heap book_two_levels 0) = 10"
    "Size (order_heap book_two_levels 1) = 2000"
    by (simp_all add: book_two_levels_def engine_defs)
  with DeleteOrder_absent [OF h] show ?thesis by simp
qed

section \<open>Cancelling an id that is not on the side\<close>

lemma find_order_None:
  "\<forall>r\<in>set rs. ID (order_heap s r) \<noteq> orderId \<Longrightarrow> find_order orderId rs s = None"
  by (induction rs) auto

lemma find_limit_order_None:
  "\<forall>l\<in>set ls. \<forall>r\<in>set (Orders (limit_heap s l)). ID (order_heap s r) \<noteq> orderId
   \<Longrightarrow> find_limit_order orderId ls s = None"
  by (induction ls) (auto simp: find_order_None)

text \<open>
  C7. When no Limit of the declared side (the bids for \<open>BID\<close>, the asks for anything
  else) holds an order with the id, \<open>CancelOrderByID\<close> returns \<open>ErrNotFound\<close> and the
  state after the call is the state before it.
\<close>

theorem CancelOrderByID_not_found:
  assumes "\<forall>l\<in>set (side_limits orderPlacement s).
             \<forall>r\<in>set (Orders (limit_heap s l)). ID (order_heap s r) \<noteq> orderId"
  shows "CancelOrderByID orderId orderPlacement s = (Some ErrNotFound, s)"
  using find_limit_order_None [OF assms] by (simp add: CancelOrderByID_def)

theorem CancelOrderByID_not_found_witness:
  "CancelOrderByID 1 ASK_ORDER book_two_levels = (Some ErrNotFound, book_two_levels) \<and>
   CancelOrderByID 7 BID_ORDER book_two_levels = (Some ErrNotFound, book_two_levels)"
proof -
  have a: "\<forall>l\<in>set (side_limits ASK_ORDER book_two_levels).
             \<forall>r\<in>set (Orders (limit_heap book_two_levels l)). ID (order_heap book_two_levels r) \<noteq> 1"
    by (simp add: book_two_levels_def engine_defs)
  have b: "\<forall>l\<in>set (side_limits BID_ORDER book_two_levels).
             \<forall>r\<in>set (Orders (limit_heap book_two_levels l)). ID (order_heap book_two_levels r) \<noteq> 7"
    by (simp add: book_two_levels_def engine_defs)
  from CancelOrderByID_not_found [OF a] CancelOrderByID_not_found [OF b] show ?thesis by simp
qed

section \<open>The matching test (scenario A)\<close>

text \<open>
  Counterexample to C2 as stated: on the book of the matching test, the third match of the
  market bid of size 500 is not a fill of 1. (The order of size 51 is filled by the 50
  units that the bid has left after 100 and 350; its residual size is 1.)
\<close>

theorem scenario_A_third_fill_counterexample:
  "fst (PlaceMarketOrder 4 (snd (NewOrder BID_ORDER 500 5 (book_four_asks ''ETH'' 1 2 3 4)))) \<noteq>
     Inr [\<lparr>Ask = 0, Bid = 4, SizeFilled = 100, Match.Price = 10000\<rparr>,
          \<lparr>Ask = 1, Bid = 4, SizeFilled = 350, Match.Price = 12000\<rparr>,
          \<lparr>Ask = 3, Bid = 4, SizeFilled = 1, Match.Price = 12000\<rparr>]"
  by (simp add: book_four_asks_def engine_defs loop_simps)

text \<open>
  C2 (as amended). From an empty book, asks of size 100 at 10000, 350 at 12000, 15 at 13000
  and 51 at 12000 are placed in that order (orders 0 to 3, at any clock readings). A market
  bid of size 500 then returns exactly three matches, in this order: 100 filled at 10000
  from order 0, 350 filled at 12000 from order 1, and 50 filled at 12000 from order 3. The
  order of size 51 is left with residual size 1, the bid is filled, \<open>AskTotalVolume\<close> is
  16, and two ask Limits remain: 12000 with volume 1 and 13000 with volume 15.
\<close>

theorem scenario_A:
  "(let book = book_four_asks market t1 t2 t3 t4;
        (buyOrder, s) = NewOrder BID_ORDER 500 t5 book;
        (result, s') = PlaceMarketOrder buyOrder s
    in result = Inr [\<lparr>Ask = 0, Bid = buyOrder, SizeFilled = 100, Match.Price = 10000\<rparr>,
                     \<lparr>Ask = 1, Bid = buyOrder, SizeFilled = 350, Match.Price = 12000\<rparr>,
                     \<lparr>Ask = 3, Bid = buyOrder, SizeFilled = 50, Match.Price = 12000\<rparr>] \<and>
       map (\<lambda>r. Size (order_heap book r)) [0, 1, 2, 3] = [100, 350, 15, 51] \<and>
       map (\<lambda>r. Size (order_heap s' r)) [0, 1, 2, 3] = [0, 0, 15, 1] \<and>
       Size (order_heap s' buyOrder) = 0 \<and>
       AskTotalVolume s' = 16 \<and>
       length (asks (ob s')) = 2 \<and>
       fst (Asks s') = [1, 2] \<and>
       map (\<lambda>l. (Price (limit_heap s' l), Orders (limit_heap s' l), TotalVolume (limit_heap s' l)))
         [1, 2] = [(12000, [3], 1), (13000, [2], 15)])"
  by (simp add: book_four_asks_def engine_defs loop_simps)

section \<open>The index after a fill\<close>

text \<open>
  C3, evaluated where the code departs from it: an ask of size 5 (id 1) rests alone in the
  book; a market bid of size 5 fills it. Afterwards the order has size 0 and rests in no
  Limit (both sides are empty), and \<open>OrderIndex\<close> still maps id 1 to it: only
  \<open>CancelOrderByID\<close> deletes from the index, \<open>Fill\<close> and \<open>PlaceMarketOrder\<close> never do.
\<close>

theorem index_keeps_filled_order:
  "(let s = exec (MarketOrderCmd BID_ORDER 5 2) book_one_ask
    in OrderIndex book_one_ask 1 = Some \<lparr>Order = 0, OrderMetadata.Market = ''ETH''\<rparr> \<and>
       Orders (limit_heap book_one_ask 0) = [0] \<and>
       Size (order_heap s 0) = 0 \<and>
       asks (ob s) = [] \<and> bids (ob s) = [] \<and>
       Orders (limit_heap s 0) = [] \<and>
       OrderIndex s 1 = Some \<lparr>Order = 0, OrderMetadata.Market = ''ETH''\<rparr>)"
  by (simp add: book_one_ask_def engine_defs loop_simps)

section \<open>Invariants of the reachable books\<close>

text \<open>
  The runs below start from \<open>init_state\<close> and execute any commands, accepted or rejected;
  every order placed is a new one built by \<open>NewOrder\<close>, as the handlers and the tests do.
\<close>

lemma book_partial_fill_eval:
  "asks (ob book_partial_fill) = [1] \<and> bids (ob book_partial_fill) = [] \<and>
   limit_heap book_partial_fill 1 = \<lparr>Price = 12000, Orders = [1], TotalVolume = 1\<rparr> \<and>
   Size (order_heap book_partial_fill 1) = 1"
  by (simp add: book_partial_fill_def engine_defs loop_simps)



lemma side_struct_prices:
  assumes "side_struct side s"
  shows "distinct (map (\<lambda>l. Price (limit_heap s l)) (side_limits side s))"
proof -
  note S = side_structD [OF assms]
  have "inj_on (\<lambda>l. Price (limit_heap s l)) (set (side_limits side s))"
  proof (rule inj_onI)
    fix a b assume a: "a \<in> set (side_limits side s)" and b: "b \<in> set (side_limits side s)"
      and e: "Price (limit_heap s a) = Price (limit_heap s b)"
    from S(3) [of "Price (limit_heap s a)" a] a
    have "side_map side s (Price (limit_heap s a)) = Some a" by simp
    moreover from S(3) [of "Price (limit_heap s a)" b] b e
    have "side_map side s (Price (limit_heap s a)) = Some b" by simp
    ultimately show "a = b" by simp
  qed
  with S(1) show ?thesis by (simp add: distinct_map)
qed

text \<open>
  C8. After any run from a new order book, no two Limits of a side have the same price, and
  a side's price map sends a price to a Limit exactly when that Limit is in the side's
  slice and has that price.
\<close>

theorem price_levels_unique_run:
  assumes "s = run cmds (init_state market)"
  shows "distinct (map (\<lambda>l. Price (limit_heap s l)) (asks (ob s))) \<and>
         distinct (map (\<lambda>l. Price (limit_heap s l)) (bids (ob s))) \<and>
         (\<forall>p l. AskLimits (ob s) p = Some l \<longleftrightarrow>
            l \<in> set (asks (ob s)) \<and> Price (limit_heap s l) = p) \<and>
         (\<forall>p l. BidLimits (ob s) p = Some l \<longleftrightarrow>
            l \<in> set (bids (ob s)) \<and> Price (limit_heap s l) = p)"
proof -
  have wfs: "well_formed s" unfolding assms by (rule reachable_well_formed)
  then have a: "side_struct ASK_ORDER s" and b: "side_struct BID_ORDER s"
    by (simp_all add: well_formed_def side_ok_def)
  from side_struct_prices [OF a] side_struct_prices [OF b] side_structD(3) [OF a]
    side_structD(3) [OF b]
  show ?thesis by (simp add: side_limits_def side_map_def)
qed

theorem price_levels_unique_run_witness:
  "asks (ob book_partial_fill) = [1] \<and>
   AskLimits (ob book_partial_fill) 12000 = Some 1 \<and>
   AskLimits (ob book_partial_fill) 10000 = None"
proof -
  from price_levels_unique_run [OF book_partial_fill_def]
  have "\<forall>p l. AskLimits (ob book_partial_fill) p = Some l \<longleftrightarrow>
          l \<in> set (asks (ob book_partial_fill)) \<and> Price (limit_heap book_partial_fill l) = p"
    by blast
  then have "AskLimits (ob book_partial_fill) 12000 = Some 1"
    and "\<forall>l. AskLimits (ob book_partial_fill) 10000 \<noteq> Some l"
    using book_partial_fill_eval by auto
  then show ?thesis using book_partial_fill_eval by simp
qed

section \<open>Limit placement leaves the opposing side alone\<close>

lemma foldl_volume_cong:
  assumes "\<And>l. l \<in> set ls \<Longrightarrow> TotalVolume (limit_heap t l) = TotalVolume (limit_heap s l)"
  shows "foldl (\<lambda>totalVolume l. totalVolume + TotalVolume (limit_heap t l)) a ls =
         foldl (\<lambda>totalVolume l. totalVolume + TotalVolume (limit_heap s l)) a ls"
  using assms by (induction ls arbitrary: a) simp_all

lemma PlaceLimitOrder_other_side:
  assumes wfs: "well_formed s"
    and sd: "OrderPlacement (order_heap s order) = side" "side = BID_ORDER \<or> side = ASK_ORDER"
  shows "side_limits (opposite side) (snd (PlaceLimitOrder price order s)) =
           side_limits (opposite side) s"
    and "side_map (opposite side) (snd (PlaceLimitOrder price order s)) =
           side_map (opposite side) s"
    and "\<And>l. l \<in> set (side_limits (opposite side) s) \<Longrightarrow>
           limit_heap (snd (PlaceLimitOrder price order s)) l = limit_heap s l"
    and "\<And>r. Size (order_heap (snd (PlaceLimitOrder price order s)) r) = Size (order_heap s r)"
proof -
  from wfs have ss: "side_struct side s" and sso: "side_struct (opposite side) s"
    and dj: "set (side_limits side s) \<inter> set (side_limits (opposite side) s) = {}"
    unfolding well_formed_side [of s side] by (simp_all add: side_ok_def)
  note A = add_limit_effect [where side=side and price=price and s=s]
  note O = opposite_BID [of side]
  define limit where
    "limit = (case side_map side s price of Some l \<Rightarrow> l | None \<Rightarrow> limit_next s)"
  define s1 where
    "s1 = (case side_map side s price of Some l \<Rightarrow> s | None \<Rightarrow> add_limit side price s)"
  define s2 where "s2 = AddOrder limit order s1"
  have s': "snd (PlaceLimitOrder price order s) =
      s2\<lparr>OrderIndex := (OrderIndex s2)
        (ID (order_heap s2 order) \<mapsto> \<lparr>Order = order, OrderMetadata.Market = Market (ob s2)\<rparr>)\<rparr>"
    by (simp add: PlaceLimitOrder_state(1) [OF sd] Let_def s2_def s1_def limit_def)
  have nl: "limit \<notin> set (side_limits (opposite side) s)"
  proof (cases "side_map side s price")
    case None
    then show ?thesis using side_structD(2) [OF sso] by (auto simp: limit_def)
  next
    case (Some l)
    with side_structD(3) [OF ss, of price l] dj show ?thesis by (auto simp: limit_def)
  qed
  have ob1: "side_limits (opposite side) s1 = side_limits (opposite side) s"
    "side_map (opposite side) s1 = side_map (opposite side) s"
    by (simp_all add: s1_def A(7) [OF O] A(8) [OF O] split: option.splits)
  have lh1: "limit_heap s1 l = limit_heap s l" if "l \<in> set (side_limits (opposite side) s)" for l
    using that side_structD(2) [OF sso, of l] by (auto simp: s1_def A(4) split: option.splits)
  have oh1: "order_heap s1 = order_heap s" by (simp add: s1_def A(1) split: option.splits)
  have ob': "ob (snd (PlaceLimitOrder price order s)) = ob s1"
    by (simp add: s' s2_def AddOrder_effect)
  show "side_limits (opposite side) (snd (PlaceLimitOrder price order s)) =
          side_limits (opposite side) s"
    unfolding ob1(1) [symmetric] by (simp add: side_limits_def ob')
  show "side_map (opposite side) (snd (PlaceLimitOrder price order s)) = side_map (opposite side) s"
    unfolding ob1(2) [symmetric] by (simp add: side_map_def ob')
  show "limit_heap (snd (PlaceLimitOrder price order s)) l = limit_heap s l"
    if "l \<in> set (side_limits (opposite side) s)" for l
    using that nl lh1 [OF that] by (auto simp: s' s2_def AddOrder_effect)
  show "Size (order_heap (snd (PlaceLimitOrder price order s)) r) = Size (order_heap s r)" for r
    by (simp add: s' s2_def AddOrder_effect oh1)
qed

text \<open>
  C9. In any reachable book, placing a newly built bid leaves the ask slice, the ask price
  map, every ask Limit and \<open>AskTotalVolume\<close> as they were, whatever the price (also at or
  above the best ask); symmetrically for a newly built ask and the bid side. The call
  succeeds, it returns no matches (its only result is the error value), and no order
  changes its size.
\<close>

theorem PlaceLimitOrder_never_matches:
  assumes "s0 = run cmds (init_state market)"
    and "NewOrder placement sz now s0 = (order, s)"
    and "PlaceLimitOrder price order s = (err, s')"
  shows "(placement = BID_ORDER \<longrightarrow>
            err = None \<and> asks (ob s') = asks (ob s) \<and> AskLimits (ob s') = AskLimits (ob s) \<and>
            (\<forall>l\<in>set (asks (ob s)). limit_heap s' l = limit_heap s l) \<and>
            AskTotalVolume s' = AskTotalVolume s) \<and>
         (placement = ASK_ORDER \<longrightarrow>
            err = None \<and> bids (ob s') = bids (ob s) \<and> BidLimits (ob s') = BidLimits (ob s) \<and>
            (\<forall>l\<in>set (bids (ob s)). limit_heap s' l = limit_heap s l) \<and>
            BidTotalVolume s' = BidTotalVolume s) \<and>
         (\<forall>r. Size (order_heap s' r) = Size (order_heap s r))"
proof -
  have "well_formed s0" unfolding assms(1) by (rule reachable_well_formed)
  then have wfs: "well_formed s" using assms(2) by (rule NewOrder_well_formed(1))
  have pl: "OrderPlacement (order_heap s order) = placement"
    using NewOrder_effect(1,7) [OF assms(2)] by simp
  have s': "s' = snd (PlaceLimitOrder price order s)" and err: "err = fst (PlaceLimitOrder price order s)"
    using assms(3) by simp_all
  have sizes: "Size (order_heap s' r) = Size (order_heap s r)" for r
  proof (cases "placement = BID_ORDER \<or> placement = ASK_ORDER")
    case True
    from PlaceLimitOrder_other_side(4) [OF wfs pl True] show ?thesis by (simp add: s')
  next
    case False
    then show ?thesis by (simp add: s' PlaceLimitOrder_invalid pl)
  qed
  have bid: "err = None \<and> asks (ob s') = asks (ob s) \<and> AskLimits (ob s') = AskLimits (ob s) \<and>
            (\<forall>l\<in>set (asks (ob s)). limit_heap s' l = limit_heap s l) \<and>
            AskTotalVolume s' = AskTotalVolume s"
    if b: "placement = BID_ORDER"
  proof -
    have sd: "placement = BID_ORDER \<or> placement = ASK_ORDER" using b by simp
    note P = PlaceLimitOrder_other_side [OF wfs pl sd, where price=price]
    have a: "asks (ob s') = asks (ob s)" "AskLimits (ob s') = AskLimits (ob s)"
      using P(1,2) by (simp_all add: s' b opposite_def side_limits_def side_map_def)
    have l: "limit_heap s' l = limit_heap s l" if "l \<in> set (asks (ob s))" for l
      using P(3) [of l] that by (simp add: s' b opposite_def side_limits_def)
    have "AskTotalVolume s' = AskTotalVolume s"
      unfolding AskTotalVolume_def a by (rule foldl_volume_cong) (simp add: l)
    moreover have "err = None" by (simp add: err PlaceLimitOrder_state(2) [OF pl sd])
    ultimately show ?thesis using a l by simp
  qed
  have ask: "err = None \<and> bids (ob s') = bids (ob s) \<and> BidLimits (ob s') = BidLimits (ob s) \<and>
            (\<forall>l\<in>set (bids (ob s)). limit_heap s' l = limit_heap s l) \<and>
            BidTotalVolume s' = BidTotalVolume s"
    if b: "placement = ASK_ORDER"
  proof -
    have sd: "placement = BID_ORDER \<or> placement = ASK_ORDER" using b by simp
    note P = PlaceLimitOrder_other_side [OF wfs pl sd, where price=price]
    have a: "bids (ob s') = bids (ob s)" "BidLimits (ob s') = BidLimits (ob s)"
      using P(1,2) by (simp_all add: s' b opposite_def side_limits_def side_map_def)
    have l: "limit_heap s' l = limit_heap s l" if "l \<in> set (bids (ob s))" for l
      using P(3) [of l] that by (simp add: s' b opposite_def side_limits_def)
    have "BidTotalVolume s' = BidTotalVolume s"
      unfolding BidTotalVolume_def a by (rule foldl_volume_cong) (simp add: l)
    moreover have "err = None" by (simp add: err PlaceLimitOrder_state(2) [OF pl sd])
    ultimately show ?thesis using a l by simp
  qed
  from bid ask sizes show ?thesis by blast
qed

theorem PlaceLimitOrder_never_matches_witness:
  "asks (ob book_crossed) = [0] \<and> AskLimits (ob book_crossed) 100 = Some 0 \<and>
   AskTotalVolume book_crossed = 5 \<and> Size (order_heap book_crossed 0) = 5 \<and>
   map (\<lambda>l. Price (limit_heap book_crossed l)) (asks (ob book_crossed) @ bids (ob book_crossed)) =
     [100, 120]"
proof -
  have n: "NewOrder BID_ORDER 3 2 book_one_ask = (fst crossing_bid, snd crossing_bid)"
    by (simp add: crossing_bid_def)
  have p: "PlaceLimitOrder 120 (fst crossing_bid) (snd crossing_bid) =
             (fst (PlaceLimitOrder 120 (fst crossing_bid) (snd crossing_bid)), book_crossed)"
    by (simp add: book_crossed_def)
  have before: "asks (ob (snd crossing_bid)) = [0] \<and>
      AskLimits (ob (snd crossing_bid)) 100 = Some 0 \<and>
      AskTotalVolume (snd crossing_bid) = 5 \<and> Size (order_heap (snd crossing_bid) 0) = 5"
    by (simp add: crossing_bid_def book_one_ask_def engine_defs)
  have after: "map (\<lambda>l. Price (limit_heap book_crossed l)) (bids (ob book_crossed)) = [120] \<and>
      Price (limit_heap book_crossed 0) = 100"
    by (simp add: book_crossed_def crossing_bid_def book_one_ask_def engine_defs)
  from PlaceLimitOrder_never_matches [OF book_one_ask_def n p] before after
  show ?thesis by simp
qed

section \<open>Price-time priority within a Limit\<close>

lemma walk_matches_Nil [simp]: "walk_matches l order [] s = []"
  by (simp add: walk_matches_def)














lemma same_ids_refl [simp]: "same_ids s s"
  by (simp add: same_ids_def)

















section \<open>A market order for the whole opposing volume\<close>
















end
